theory Spec2Isabelle
  imports Main "HOL-Library.Sublist"
begin

section \<open>Strings: the regular expression \<^verbatim>\<open>/\btemplate\b/g\<close> and \<^verbatim>\<open>String.prototype.replace\<close>\<close>

text \<open>
  A JavaScript string is modelled as a \<^typ>\<open>string\<close> (one \<^typ>\<open>char\<close> per code unit).
  Without the \<^verbatim>\<open>u\<close> and \<^verbatim>\<open>i\<close> flags the class \<^verbatim>\<open>\w\<close> is exactly
  \<^verbatim>\<open>[A-Za-z0-9_]\<close>; every other code unit is a non-word character.
\<close>

definition word_chars :: string where
  "word_chars = ''abcdefghijklmnopqrstuvwxyzABCDEFGHIJKLMNOPQRSTUVWXYZ0123456789_''"

definition is_word_char :: "char \<Rightarrow> bool" where
  "is_word_char c = (c \<in> set word_chars)"

text \<open>
  The assertion \<^verbatim>\<open>\b\<close> holds between the text \<open>pre\<close> before the position and the text
  \<open>post\<close> after it when exactly one of the two neighbouring code units is a word character;
  the outside of the string counts as a non-word character.
\<close>

definition ends_word :: "string \<Rightarrow> bool" where
  "ends_word pre = (case rev pre of [] \<Rightarrow> False | c # _ \<Rightarrow> is_word_char c)"

definition starts_word :: "string \<Rightarrow> bool" where
  "starts_word post = (case post of [] \<Rightarrow> False | c # _ \<Rightarrow> is_word_char c)"

definition word_boundary :: "string \<Rightarrow> string \<Rightarrow> bool" where
  "word_boundary pre post = (ends_word pre \<noteq> starts_word post)"

text \<open>The pattern \<^verbatim>\<open>\btemplate\b\<close> tried at the position that splits the subject into
  \<open>pre\<close> and \<open>rest\<close>.\<close>

definition matches_at :: "string \<Rightarrow> string \<Rightarrow> bool" where
  "matches_at pre rest =
     (word_boundary pre rest \<and> take 8 rest = ''template'' \<and>
      word_boundary (pre @ ''template'') (drop 8 rest))"

text \<open>
  \<^verbatim>\<open>GetSubstitution\<close> of ECMAScript for a pattern without capture groups: in the
  replacement text \<^verbatim>\<open>$$\<close> stands for a dollar sign, \<^verbatim>\<open>$&\<close> for the matched text,
  \<^verbatim>\<open>$`\<close> for the subject before the match and \<^verbatim>\<open>$'\<close> for the subject after it;
  any other dollar sign (also \<^verbatim>\<open>$1\<close>, there being no group) is copied as it is.
\<close>

fun get_substitution :: "string \<Rightarrow> string \<Rightarrow> string \<Rightarrow> string \<Rightarrow> string" where
  "get_substitution matched pre post [] = []"
| "get_substitution matched pre post [c] = [c]"
| "get_substitution matched pre post (c # d # r) =
     (if c = CHR ''$'' \<and> d = CHR ''$'' then CHR ''$'' # get_substitution matched pre post r
      else if c = CHR ''$'' \<and> d = CHR ''&'' then matched @ get_substitution matched pre post r
      else if c = CHR ''$'' \<and> d = CHR 0x60 then pre @ get_substitution matched pre post r
      else if c = CHR ''$'' \<and> d = CHR 0x27 then post @ get_substitution matched pre post r
      else c # get_substitution matched pre post (d # r))"

text \<open>
  \<^verbatim>\<open>subject.replace(/\btemplate\b/g, replacement)\<close>: the subject is scanned from left to
  right; a match is replaced by its substitution and the scan goes on behind the match,
  any other code unit is copied. \<open>pre\<close> is the part of the subject already scanned.
\<close>

fun replace_from :: "string \<Rightarrow> string \<Rightarrow> string \<Rightarrow> string" where
  "replace_from replacement pre [] = []"
| "replace_from replacement pre (c # cs) =
     (if matches_at pre (c # cs)
      then get_substitution ''template'' pre (drop 7 cs) replacement
             @ replace_from replacement (pre @ ''template'') (drop 7 cs)
      else c # replace_from replacement (pre @ [c]) cs)"

definition replace_template :: "string \<Rightarrow> string \<Rightarrow> string" where
  "replace_template subject replacement = replace_from replacement [] subject"


section \<open>The package manifest\<close>

text \<open>
  The value \<^verbatim>\<open>JSON.parse\<close> returns. An object is the list of its properties in
  property order, with distinct keys. Numbers are kept as integers: only whether a number
  is zero matters below.
\<close>

datatype json =
    JNull
  | JBool bool
  | JNum int
  | JStr string
  | JArr "json list"
  | JObj "(string \<times> json) list"

type_synonym path = "string list"

datatype error =
    NotFoundError path
  | FileSystemError
  | PipelineError "int option"
  | SpawnError
  | ManifestError
  | TypeError

text \<open>JavaScript truthiness, as tested by \<^verbatim>\<open>if (pkg.scripts)\<close>.\<close>

fun truthy :: "json \<Rightarrow> bool" where
  "truthy JNull = False"
| "truthy (JBool b) = b"
| "truthy (JNum n) = (n \<noteq> 0)"
| "truthy (JStr s) = (s \<noteq> [])"
| "truthy (JArr xs) = True"
| "truthy (JObj kvs) = True"

text \<open>
  One turn of the loop over \<^verbatim>\<open>Object.keys(pkg.scripts)\<close>: a string value is replaced by
  the result of \<^verbatim>\<open>replace\<close>; any other JSON value has no method \<^verbatim>\<open>replace\<close> and the
  call throws a \<^verbatim>\<open>TypeError\<close>, which ends the loop.
\<close>

definition rewrite_value :: "string \<Rightarrow> json \<Rightarrow> error + json" where
  "rewrite_value name v =
     (case v of JStr s \<Rightarrow> Inr (JStr (replace_template s name)) | _ \<Rightarrow> Inl TypeError)"

fun rewrite_entries :: "string \<Rightarrow> (string \<times> json) list \<Rightarrow> error + (string \<times> json) list" where
  "rewrite_entries name [] = Inr []"
| "rewrite_entries name ((k, v) # kvs) =
     (case rewrite_value name v of
        Inl e \<Rightarrow> Inl e
      | Inr v' \<Rightarrow> (case rewrite_entries name kvs of
                    Inl e \<Rightarrow> Inl e
                  | Inr kvs' \<Rightarrow> Inr ((k, v') # kvs')))"

fun rewrite_elements :: "string \<Rightarrow> json list \<Rightarrow> error + json list" where
  "rewrite_elements name [] = Inr []"
| "rewrite_elements name (v # vs) =
     (case rewrite_value name v of
        Inl e \<Rightarrow> Inl e
      | Inr v' \<Rightarrow> (case rewrite_elements name vs of
                    Inl e \<Rightarrow> Inl e
                  | Inr vs' \<Rightarrow> Inr (v' # vs')))"

text \<open>
  The body of \<^verbatim>\<open>if (pkg.scripts) { ... }\<close> for each kind of truthy value: an object
  and an array have their values rewritten; a non-empty string has the keys of its code
  units, and the assignment to the first of them throws in strict mode; a number and a
  boolean have no keys.
\<close>

fun rewrite_scripts :: "string \<Rightarrow> json \<Rightarrow> error + json" where
  "rewrite_scripts name (JObj kvs) =
     (case rewrite_entries name kvs of Inl e \<Rightarrow> Inl e | Inr kvs' \<Rightarrow> Inr (JObj kvs'))"
| "rewrite_scripts name (JArr vs) =
     (case rewrite_elements name vs of Inl e \<Rightarrow> Inl e | Inr vs' \<Rightarrow> Inr (JArr vs'))"
| "rewrite_scripts name (JStr s) = Inl TypeError"
| "rewrite_scripts name v = Inr v"

fun assoc_update :: "string \<Rightarrow> json \<Rightarrow> (string \<times> json) list \<Rightarrow> (string \<times> json) list" where
  "assoc_update k v [] = [(k, v)]"
| "assoc_update k v ((k', v') # kvs) =
     (if k' = k then (k, v) # kvs else (k', v') # assoc_update k v kvs)"

text \<open>
  Lines 29 to 35 of \<^verbatim>\<open>update_package_json\<close>: \<^verbatim>\<open>pkg.name = name\<close>, then the rewrite of
  the scripts. The assignment throws on \<^verbatim>\<open>null\<close> and, the module being strict code, on a
  primitive value; on an array it sets a property that \<^verbatim>\<open>JSON.stringify\<close> does not
  print.
\<close>

fun rewrite_manifest :: "string \<Rightarrow> json \<Rightarrow> error + json" where
  "rewrite_manifest name (JObj kvs) =
     (let kvs1 = assoc_update ''name'' (JStr name) kvs in
      case map_of kvs1 ''scripts'' of
        None \<Rightarrow> Inr (JObj kvs1)
      | Some scripts \<Rightarrow>
          if truthy scripts
          then (case rewrite_scripts name scripts of
                  Inl e \<Rightarrow> Inl e
                | Inr scripts' \<Rightarrow> Inr (JObj (assoc_update ''scripts'' scripts' kvs1)))
          else Inr (JObj kvs1))"
| "rewrite_manifest name (JArr vs) = Inr (JArr vs)"
| "rewrite_manifest name v = Inl TypeError"

section \<open>Paths\<close>

text \<open>
  An absolute, normalised POSIX path is the list of its segments; the root is the empty
  list. \<^verbatim>\<open>path.join\<close> and \<^verbatim>\<open>path.resolve\<close> split their arguments at the slashes and
  normalise: an empty segment and \<^verbatim>\<open>.\<close> are dropped, \<^verbatim>\<open>..\<close> removes the segment
  before it and is dropped at the root.
\<close>

fun split_slash :: "string \<Rightarrow> string list" where
  "split_slash [] = [[]]"
| "split_slash (c # cs) =
     (if c = CHR ''/'' then [] # split_slash cs
      else (case split_slash cs of [] \<Rightarrow> [[c]] | s # ss \<Rightarrow> (c # s) # ss))"

definition push_seg :: "path \<Rightarrow> string \<Rightarrow> path" where
  "push_seg p s =
     (if s = [] \<or> s = ''.'' then p else if s = ''..'' then butlast p else p @ [s])"

text \<open>A segment that normalisation keeps.\<close>

definition plain_seg :: "string \<Rightarrow> bool" where
  "plain_seg s = (s \<noteq> [] \<and> s \<noteq> ''.'' \<and> s \<noteq> ''..'')"

definition normalize_segs :: "string list \<Rightarrow> path" where
  "normalize_segs segs = foldl push_seg [] segs"

definition path_resolve :: "path \<Rightarrow> string \<Rightarrow> path" where
  "path_resolve cwd p =
     (if take 1 p = ''/'' then normalize_segs (split_slash p)
      else normalize_segs (cwd @ split_slash p))"

definition path_join :: "path \<Rightarrow> string list \<Rightarrow> path" where
  "path_join base parts = normalize_segs (base @ concat (map split_slash parts))"

text \<open>The two roots are fixed when the module is loaded, from the working directory.\<close>

definition TEMPLATE_DIR :: "path \<Rightarrow> path" where
  "TEMPLATE_DIR cwd = path_resolve cwd ''./template''"

definition OUTPUT_DIR :: "path \<Rightarrow> path" where
  "OUTPUT_DIR cwd = path_resolve cwd ''../components''"

text \<open>\<open>inside root p\<close>: the path \<open>p\<close> is the directory \<open>root\<close> or lies below it.\<close>

definition inside :: "path \<Rightarrow> path \<Rightarrow> bool" where
  "inside root p = prefix root p"

section \<open>Validation of the project name\<close>

text \<open>
  \<^verbatim>\<open>String.prototype.trim\<close> removes white space and line terminators at both ends; of
  those, the code units below 256 are the ones listed.
\<close>

definition is_space :: "char \<Rightarrow> bool" where
  "is_space c = (c \<in> set [CHR 0x09, CHR 0x0A, CHR 0x0B, CHR 0x0C, CHR 0x0D, CHR 0x20, CHR 0xA0])"

definition trim :: "string \<Rightarrow> string" where
  "trim s = rev (dropWhile is_space (rev (dropWhile is_space s)))"

definition has_separator :: "string \<Rightarrow> bool" where
  "has_separator name = (CHR ''/'' \<in> set name \<or> CHR 0x5C \<in> set name)"

datatype decision = Invalid400 | Enqueue string

text \<open>
  The first lines of both routes: \<^verbatim>\<open>payload.name?.trim()\<close>, then the test
  \<^verbatim>\<open>!name || /[\/\\]/.test(name)\<close>. A payload without a name gives \<^verbatim>\<open>undefined\<close>.
\<close>

definition validate_name :: "string option \<Rightarrow> decision" where
  "validate_name payload_name =
     (case payload_name of
        None \<Rightarrow> Invalid400
      | Some raw \<Rightarrow>
          (let name = trim raw in
           if name = [] \<or> has_separator name then Invalid400 else Enqueue name))"

text \<open>Line 41 of \<^verbatim>\<open>create_template\<close>.\<close>

definition target_dir :: "path \<Rightarrow> string \<Rightarrow> path" where
  "target_dir cwd name = path_join (OUTPUT_DIR cwd) [name]"

section \<open>The file system and the external build tool\<close>

text \<open>
  The part of the world the operations act on: the nodes of the file system, and the log
  of the processes \<^verbatim>\<open>run_command\<close> has spawned (executable, arguments, working
  directory), in order.
\<close>

datatype node = File string | Dir

datatype errno = ENOENT | ENOTDIR | EACCES | EISDIR | ENAMETOOLONG | ELOOP

record world =
  nodes :: "path \<rightharpoonup> node"
  spawned :: "(string \<times> string list \<times> path) list"

text \<open>
  What a child process reports to its listeners: it closes with an exit code (\<^verbatim>\<open>null\<close>
  when a signal ended it), or it could not be started and the \<^verbatim>\<open>error\<close> event fires.
\<close>

datatype child_event = Close "int option" | SpawnFailed

text \<open>
  What the code does not decide: the working directory the server was started in, the
  nodes the operating system refuses to touch, the paths it fails to resolve for a reason
  the nodes do not show (a directory that may not be searched, a name that is too long, a
  loop of symbolic links) with the error code it reports, the behaviour of the spawned
  tool (the events of the child and the file system it leaves behind), and the library
  functions \<^verbatim>\<open>JSON.parse\<close> and \<^verbatim>\<open>JSON.stringify\<close>.
\<close>

record env =
  cwd :: path
  denied :: "path \<Rightarrow> bool"
  lookup_error :: "path \<Rightarrow> errno option"
  child :: "string \<Rightarrow> string list \<Rightarrow> path \<Rightarrow> (path \<rightharpoonup> node) \<Rightarrow> child_event list \<times> (path \<rightharpoonup> node)"
  json_parse :: "string \<Rightarrow> json option"
  json_stringify :: "json \<Rightarrow> string"

text \<open>
  The result of awaiting a promise: it is fulfilled, it is rejected and the error is
  thrown, or it is never settled and the awaiting function does not go on.
\<close>

datatype 'a outcome = Done 'a | Threw error | Hangs

definition and_then :: "unit outcome \<times> world \<Rightarrow> (world \<Rightarrow> 'b outcome \<times> world) \<Rightarrow> 'b outcome \<times> world" where
  "and_then r k =
     (case r of
        (Done _, w) \<Rightarrow> k w
      | (Threw e, w) \<Rightarrow> (Threw e, w)
      | (Hangs, w) \<Rightarrow> (Hangs, w))"

text \<open>
  The operating system resolves a path one component after the other. A component that is
  a regular file and is not the last one stops the resolution with \<^verbatim>\<open>ENOTDIR\<close>:
  \<open>file_on_path ns dir p\<close> walks the components of \<open>p\<close> below the directory \<open>dir\<close> and
  leaves the last one out.
\<close>

fun is_file :: "node option \<Rightarrow> bool" where
  "is_file (Some (File content)) = True"
| "is_file (Some Dir) = False"
| "is_file None = False"

fun file_on_path :: "(path \<rightharpoonup> node) \<Rightarrow> path \<Rightarrow> path \<Rightarrow> bool" where
  "file_on_path ns dir [] = False"
| "file_on_path ns dir [x] = False"
| "file_on_path ns dir (x # y # rest) =
     (is_file (ns (dir @ [x])) \<or> file_on_path ns (dir @ [x]) (y # rest))"

definition under_file :: "(path \<rightharpoonup> node) \<Rightarrow> path \<Rightarrow> bool" where
  "under_file ns p = file_on_path ns [] p"

text \<open>The error, if any, that stops the resolution of a path above its last component.\<close>

definition resolve_error :: "env \<Rightarrow> (path \<rightharpoonup> node) \<Rightarrow> path \<Rightarrow> errno option" where
  "resolve_error E ns p = (if under_file ns p then Some ENOTDIR else lookup_error E p)"

text \<open>
  \<^verbatim>\<open>access(path)\<close> and \<^verbatim>\<open>write(path, content)\<close>. \<^verbatim>\<open>access\<close> fails with the error of the
  resolution, with \<^verbatim>\<open>ENOENT\<close> when the path resolves and nothing exists there, and with
  \<^verbatim>\<open>EACCES\<close> when the operating system refuses the node.
\<close>

definition access :: "env \<Rightarrow> path \<Rightarrow> world \<Rightarrow> errno + unit" where
  "access E p w =
     (case resolve_error E (nodes w) p of
        Some code \<Rightarrow> Inl code
      | None \<Rightarrow>
          (case nodes w p of
             None \<Rightarrow> Inl ENOENT
           | Some n \<Rightarrow> if denied E p then Inl EACCES else Inr ()))"

definition write_file :: "env \<Rightarrow> path \<Rightarrow> string \<Rightarrow> world \<Rightarrow> errno + world" where
  "write_file E p content w =
     (case resolve_error E (nodes w) p of
        Some code \<Rightarrow> Inl code
      | None \<Rightarrow>
          (case nodes w p of
             Some Dir \<Rightarrow> Inl EISDIR
           | _ \<Rightarrow> if denied E p then Inl EACCES
                  else Inr (w\<lparr>nodes := (nodes w)(p \<mapsto> File content)\<rparr>)))"

subsection \<open>\<^verbatim>\<open>run_command\<close>\<close>

text \<open>
  The promise \<^verbatim>\<open>run_command\<close> returns is settled by the first event that has a
  listener. \<^verbatim>\<open>server.ts\<close> and \<^verbatim>\<open>part_001\<close> listen to \<^verbatim>\<open>close\<close> and to \<^verbatim>\<open>error\<close>.
\<close>

datatype settled = Resolved | Rejected error | NoResult | Uncaught

fun on_events :: "child_event list \<Rightarrow> settled" where
  "on_events [] = NoResult"
| "on_events (Close code # evs) =
     (if code = Some 0 then Resolved else Rejected (PipelineError code))"
| "on_events (SpawnFailed # evs) = Rejected SpawnError"

text \<open>
  \<^verbatim>\<open>part_000\<close> listens to \<^verbatim>\<open>close\<close> only. An \<^verbatim>\<open>error\<close> event without a listener is
  thrown by the emitter as an uncaught exception; the promise is not settled by it.
\<close>

fun on_events_part0 :: "child_event list \<Rightarrow> settled" where
  "on_events_part0 [] = NoResult"
| "on_events_part0 (Close code # evs) =
     (if code = Some 0 then Resolved else Rejected (PipelineError code))"
| "on_events_part0 (SpawnFailed # evs) = Uncaught"

definition run_command :: "env \<Rightarrow> string \<Rightarrow> string list \<Rightarrow> path \<Rightarrow> world \<Rightarrow> settled \<times> world" where
  "run_command E command args dir w =
     (let (events, nodes') = child E command args dir (nodes w)
      in (on_events events, w\<lparr>nodes := nodes', spawned := spawned w @ [(command, args, dir)]\<rparr>))"

definition run_command_part0 :: "env \<Rightarrow> string \<Rightarrow> string list \<Rightarrow> path \<Rightarrow> world \<Rightarrow> settled \<times> world" where
  "run_command_part0 E command args dir w =
     (let (events, nodes') = child E command args dir (nodes w)
      in (on_events_part0 events, w\<lparr>nodes := nodes', spawned := spawned w @ [(command, args, dir)]\<rparr>))"


subsection \<open>\<^verbatim>\<open>update_package_json\<close>\<close>

definition update_package_json :: "env \<Rightarrow> path \<Rightarrow> string \<Rightarrow> world \<Rightarrow> unit outcome \<times> world" where
  "update_package_json E target name w =
     (let pkg_path = path_join target [''package.json''] in
      case nodes w pkg_path of
        None \<Rightarrow> (Done (), w)
      | Some Dir \<Rightarrow> (Threw FileSystemError, w)
      | Some (File text) \<Rightarrow>
          (case json_parse E text of
             None \<Rightarrow> (Threw ManifestError, w)
           | Some pkg \<Rightarrow>
               (case rewrite_manifest name pkg of
                  Inl e \<Rightarrow> (Threw e, w)
                | Inr pkg' \<Rightarrow>
                    (case write_file E pkg_path (json_stringify E pkg') w of
                       Inl code \<Rightarrow> (Threw FileSystemError, w)
                     | Inr w' \<Rightarrow> (Done (), w')))))"

subsection \<open>\<^verbatim>\<open>update_view\<close> and \<^verbatim>\<open>update_server\<close>\<close>

text \<open>
  The \<^verbatim>\<open>catch\<close> block of both functions: \<^verbatim>\<open>ENOENT\<close> becomes the error "not found in
  the specified template directory", any other code the error "File system error
  occurred".
\<close>

definition caught :: "errno \<Rightarrow> path \<Rightarrow> error" where
  "caught code p = (if code = ENOENT then NotFoundError p else FileSystemError)"

definition view_path :: "path \<Rightarrow> string \<Rightarrow> path" where
  "view_path c name = path_join (OUTPUT_DIR c) [name @ ''/src'', ''App.vue'']"

definition server_path :: "path \<Rightarrow> string \<Rightarrow> path" where
  "server_path c name = path_join (OUTPUT_DIR c) [name @ ''/src'', ''server.ts'']"

text \<open>In \<^verbatim>\<open>part_000\<close> the server file is joined to the project directory itself.\<close>

definition server_path_part0 :: "path \<Rightarrow> string \<Rightarrow> path" where
  "server_path_part0 c name = path_join (OUTPUT_DIR c) [name, ''server.ts'']"

definition update_view :: "env \<Rightarrow> string \<Rightarrow> string \<Rightarrow> world \<Rightarrow> unit outcome \<times> world" where
  "update_view E name content w =
     (let view_path = view_path (cwd E) name in
      case access E view_path w of
        Inl code \<Rightarrow> (Threw (caught code view_path), w)
      | Inr _ \<Rightarrow>
          (case write_file E view_path content w of
             Inl code \<Rightarrow> (Threw (caught code view_path), w)
           | Inr w' \<Rightarrow> (Done (), w')))"

definition update_server :: "env \<Rightarrow> string \<Rightarrow> string \<Rightarrow> world \<Rightarrow> unit outcome \<times> world" where
  "update_server E name content w =
     (let server_path = server_path (cwd E) name in
      case access E server_path w of
        Inl code \<Rightarrow> (Threw (caught code server_path), w)
      | Inr _ \<Rightarrow>
          (case write_file E server_path content w of
             Inl code \<Rightarrow> (Threw (caught code server_path), w)
           | Inr w' \<Rightarrow> (Done (), w')))"

definition update_server_part0 :: "env \<Rightarrow> string \<Rightarrow> string \<Rightarrow> world \<Rightarrow> unit outcome \<times> world" where
  "update_server_part0 E name content w =
     (let server_path = server_path_part0 (cwd E) name in
      case access E server_path w of
        Inl code \<Rightarrow> (Threw (caught code server_path), w)
      | Inr _ \<Rightarrow>
          (case write_file E server_path content w of
             Inl code \<Rightarrow> (Threw (caught code server_path), w)
           | Inr w' \<Rightarrow> (Done (), w')))"

subsection \<open>The update operation\<close>

datatype body = Url string | Updated string | ErrorMessage error | Text string

datatype response = Response nat body











text \<open>A sample environment and world for the examples: every process exits with 0.\<close>

definition env0 :: env where
  "env0 = \<lparr>cwd = [''srv'', ''api''], denied = (\<lambda>p. False), lookup_error = (\<lambda>p. None),
           child = (\<lambda>command args dir ns. ([Close (Some 0)], ns)),
           json_parse = (\<lambda>text. None), json_stringify = (\<lambda>pkg. [])\<rparr>"

definition world0 :: world where
  "world0 = \<lparr>nodes = Map.empty, spawned = []\<rparr>"

text \<open>A world in which \<^verbatim>\<open>acme\<close> in the output directory is a regular file.\<close>

definition world2 :: world where
  "world2 = \<lparr>nodes = [[''srv'', ''components'', ''acme''] \<mapsto> File ''notes''], spawned = []\<rparr>"


section \<open>Promises, the event loop and the per-name queue\<close>

text \<open>
  \<^verbatim>\<open>queue\<close> is written with \<^verbatim>\<open>then\<close>, \<^verbatim>\<open>catch\<close> and \<^verbatim>\<open>finally\<close>; its behaviour is that
  of the promises it builds. A promise is pending, with the reactions registered on it,
  or settled. Promises and tasks are numbered; the task of the \<open>n\<close>-th call of \<^verbatim>\<open>queue\<close>
  is task \<open>n\<close>.
\<close>

type_synonym pid = nat
type_synonym tid = nat

datatype jsval = Null | Answer response | Failure error

datatype settlement = Fulfil jsval | Reject jsval

text \<open>
  The callbacks the two variants of \<^verbatim>\<open>queue\<close> pass to \<^verbatim>\<open>then\<close> and \<^verbatim>\<open>catch\<close>:
  \<^verbatim>\<open>() => task()\<close> (in \<^verbatim>\<open>part_001\<close> the task itself); the handler of \<^verbatim>\<open>server.ts\<close>, which
  removes the entry of the name if it still holds \<^verbatim>\<open>next\<close> and throws the error again;
  the handler of \<^verbatim>\<open>part_001\<close>, which returns the response "Previous task failed".
\<close>

datatype callback =
    CallTask tid
  | Rethrow string pid
  | PreviousFailed

text \<open>
  A reaction names the promise derived by the call that registered it.
  \<open>Finally name self d\<close> is the reaction of
  \<^verbatim>\<open>finally(() => { if (TEMPLATE_LOCKS.get(name) === self) TEMPLATE_LOCKS.delete(name) })\<close>.
  \<open>Resolve d\<close> is registered on a promise that a callback has returned: the derived
  promise \<open>d\<close> follows it.
\<close>

datatype reaction =
    Then callback pid
  | Catch callback pid
  | Finally string pid pid
  | Resolve pid

datatype promise = Pending "reaction list" | Settled settlement

datatype trace_event = Started tid | Ended tid

text \<open>
  What a call of \<^verbatim>\<open>queue\<close> has built: the name, the promise \<^verbatim>\<open>last\<close>, the promises
  derived by \<^verbatim>\<open>then\<close>, \<^verbatim>\<open>catch\<close> and \<^verbatim>\<open>finally\<close>, and the promise \<^verbatim>\<open>next\<close> it has
  returned to its caller.
\<close>

record call =
  key :: string
  last_p :: pid
  then_p :: pid
  catch_p :: pid
  finally_p :: pid
  next_p :: pid

text \<open>
  The state of the server: the promises, the next unused promise number, the map
  \<^verbatim>\<open>TEMPLATE_LOCKS\<close>, the queue of microtasks, and the tasks that have been called and
  whose promise is still pending. The trace of task starts and ends and the list of the
  calls of \<^verbatim>\<open>queue\<close> are kept for the statements; no step reads them except to number
  the next task.
\<close>

record machine =
  promises :: "pid \<Rightarrow> promise"
  fresh :: pid
  locks :: "string \<rightharpoonup> pid"
  jobs :: "(reaction \<times> settlement) list"
  running :: "tid \<rightharpoonup> pid"
  trace :: "trace_event list"
  calls :: "call list"

definition init :: machine where
  "init = \<lparr>promises = (\<lambda>p. Pending []), fresh = 0, locks = Map.empty, jobs = [],
           running = Map.empty, trace = [], calls = []\<rparr>"

definition new_promise :: "promise \<Rightarrow> machine \<Rightarrow> pid \<times> machine" where
  "new_promise st s =
     (fresh s, s\<lparr>promises := (promises s)(fresh s := st), fresh := Suc (fresh s)\<rparr>)"

text \<open>A reaction registered on a settled promise becomes a microtask at once.\<close>

definition subscribe :: "pid \<Rightarrow> reaction \<Rightarrow> machine \<Rightarrow> machine" where
  "subscribe p r s =
     (case promises s p of
        Pending rs \<Rightarrow> s\<lparr>promises := (promises s)(p := Pending (rs @ [r]))\<rparr>
      | Settled x \<Rightarrow> s\<lparr>jobs := jobs s @ [(r, x)]\<rparr>)"

text \<open>Settling a pending promise queues its reactions; a settled promise stays as it is.\<close>

definition settle :: "pid \<Rightarrow> settlement \<Rightarrow> machine \<Rightarrow> machine" where
  "settle p x s =
     (case promises s p of
        Pending rs \<Rightarrow>
          s\<lparr>promises := (promises s)(p := Settled x), jobs := jobs s @ map (\<lambda>r. (r, x)) rs\<rparr>
      | Settled y \<Rightarrow> s)"

definition promise_then :: "pid \<Rightarrow> callback \<Rightarrow> machine \<Rightarrow> pid \<times> machine" where
  "promise_then p cb s = (let (d, s1) = new_promise (Pending []) s in (d, subscribe p (Then cb d) s1))"

definition promise_catch :: "pid \<Rightarrow> callback \<Rightarrow> machine \<Rightarrow> pid \<times> machine" where
  "promise_catch p cb s = (let (d, s1) = new_promise (Pending []) s in (d, subscribe p (Catch cb d) s1))"

definition promise_finally :: "pid \<Rightarrow> string \<Rightarrow> pid \<Rightarrow> machine \<Rightarrow> pid \<times> machine" where
  "promise_finally p name self s =
     (let (d, s1) = new_promise (Pending []) s in (d, subscribe p (Finally name self d) s1))"

text \<open>\<^verbatim>\<open>if (TEMPLATE_LOCKS.get(name) === next) TEMPLATE_LOCKS.delete(name)\<close>\<close>

definition cleanup :: "string \<Rightarrow> pid \<Rightarrow> machine \<Rightarrow> machine" where
  "cleanup name self s =
     (if locks s name = Some self then s\<lparr>locks := (locks s)(name := None)\<rparr> else s)"

text \<open>
  \<^verbatim>\<open>queue\<close> of \<^verbatim>\<open>server.ts\<close>. The handler passed to \<^verbatim>\<open>catch\<close> refers to \<^verbatim>\<open>next\<close>, the
  promise that this very call of \<^verbatim>\<open>catch\<close> returns: it is the next unused promise.
\<close>

definition queue :: "string \<Rightarrow> machine \<Rightarrow> pid \<times> machine" where
  "queue name s0 =
     (let task = length (calls s0);
          (last, s1) = (case locks s0 name of
                          Some p \<Rightarrow> (p, s0)
                        | None \<Rightarrow> new_promise (Settled (Fulfil Null)) s0);
          (p1, s2) = promise_then last (CallTask task) s1;
          (next, s3) = promise_catch p1 (Rethrow name (fresh s2)) s2;
          s4 = s3\<lparr>locks := (locks s3)(name \<mapsto> next)\<rparr>;
          (p3, s5) = promise_finally next name next s4
      in (next, s5\<lparr>calls := calls s5 @
            [\<lparr>key = name, last_p = last, then_p = p1, catch_p = next, finally_p = p3,
              next_p = next\<rparr>]\<rparr>))"

text \<open>
  \<^verbatim>\<open>queue\<close> of \<^verbatim>\<open>part_001\<close>. Here \<^verbatim>\<open>next\<close> is the promise \<^verbatim>\<open>finally\<close> returns, and the
  callback of \<^verbatim>\<open>finally\<close> refers to it.
\<close>

definition queue_part1 :: "string \<Rightarrow> machine \<Rightarrow> pid \<times> machine" where
  "queue_part1 name s0 =
     (let task = length (calls s0);
          (last, s1) = (case locks s0 name of
                          Some p \<Rightarrow> (p, s0)
                        | None \<Rightarrow> new_promise (Settled (Fulfil Null)) s0);
          (p1, s2) = promise_then last (CallTask task) s1;
          (p2, s3) = promise_catch p1 PreviousFailed s2;
          (next, s4) = promise_finally p2 name (fresh s3) s3;
          s5 = s4\<lparr>locks := (locks s4)(name \<mapsto> next)\<rparr>
      in (next, s5\<lparr>calls := calls s5 @
            [\<lparr>key = name, last_p = last, then_p = p1, catch_p = p2, finally_p = next,
              next_p = next\<rparr>]\<rparr>))"

text \<open>
  Calling a task starts it: it runs up to its first \<^verbatim>\<open>await\<close> and returns its promise,
  which the environment settles later.
\<close>

definition start_task :: "tid \<Rightarrow> machine \<Rightarrow> pid \<times> machine" where
  "start_task t s =
     (let (pt, s1) = new_promise (Pending []) s
      in (pt, s1\<lparr>running := (running s1)(t \<mapsto> pt), trace := trace s1 @ [Started t]\<rparr>))"

datatype cb_result = Returns jsval | Throws jsval | ReturnsPromise pid

fun run_callback :: "callback \<Rightarrow> jsval \<Rightarrow> machine \<Rightarrow> cb_result \<times> machine" where
  "run_callback (CallTask t) arg s = (let (pt, s1) = start_task t s in (ReturnsPromise pt, s1))"
| "run_callback (Rethrow name self) arg s = (Throws arg, cleanup name self s)"
| "run_callback PreviousFailed arg s =
     (Returns (Answer (Response 500 (Text ''Previous task failed''))), s)"

text \<open>The derived promise takes the result of the callback.\<close>

definition resolve_with :: "pid \<Rightarrow> cb_result \<times> machine \<Rightarrow> machine" where
  "resolve_with d r =
     (case r of
        (Returns v, s) \<Rightarrow> settle d (Fulfil v) s
      | (Throws e, s) \<Rightarrow> settle d (Reject e) s
      | (ReturnsPromise q, s) \<Rightarrow> subscribe q (Resolve d) s)"

text \<open>
  One microtask. \<^verbatim>\<open>then\<close> with one callback passes a rejection on, \<^verbatim>\<open>catch\<close> passes a
  fulfilment on, \<^verbatim>\<open>finally\<close> runs its callback and passes the settlement on.
\<close>

fun run_job :: "reaction \<times> settlement \<Rightarrow> machine \<Rightarrow> machine" where
  "run_job (Then cb d, Fulfil v) s = resolve_with d (run_callback cb v s)"
| "run_job (Then cb d, Reject e) s = settle d (Reject e) s"
| "run_job (Catch cb d, Fulfil v) s = settle d (Fulfil v) s"
| "run_job (Catch cb d, Reject e) s = resolve_with d (run_callback cb e s)"
| "run_job (Finally name self d, x) s = settle d x (cleanup name self s)"
| "run_job (Resolve d, x) s = settle d x s"

text \<open>
  What can happen next: a request calls \<^verbatim>\<open>queue\<close> (of one of the two variants) for a
  name; the promise of a running task is settled; the event loop runs the first
  microtask. The steps may come in any order.
\<close>

datatype variant = ServerTs | Part1

datatype event = Call variant string | Complete tid settlement | Tick

fun step :: "event \<Rightarrow> machine \<Rightarrow> machine" where
  "step (Call ServerTs name) s = snd (queue name s)"
| "step (Call Part1 name) s = snd (queue_part1 name s)"
| "step (Complete t x) s =
     (case running s t of
        None \<Rightarrow> s
      | Some pt \<Rightarrow>
          settle pt x (s\<lparr>running := (running s)(t := None), trace := trace s @ [Ended t]\<rparr>))"
| "step Tick s = (case jobs s of [] \<Rightarrow> s | j # js \<Rightarrow> run_job j (s\<lparr>jobs := js\<rparr>))"

definition run :: "event list \<Rightarrow> machine \<Rightarrow> machine" where
  "run evs s = fold step evs s"

text \<open>
  A schedule for the examples, with a task that is not one of the routes: \<^verbatim>\<open>queue\<close> is
  called twice for the name \<^verbatim>\<open>p\<close>, the first task is started and its promise is rejected,
  then the microtasks run until none is left.
\<close>

definition rejecting_schedule :: "variant \<Rightarrow> event list" where
  "rejecting_schedule v =
     [Call v ''p'', Call v ''p'', Tick, Complete 0 (Reject (Failure (PipelineError (Some 1)))),
      Tick, Tick, Tick, Tick, Tick, Tick, Tick]"

section \<open>An invariant of the queue\<close>

text \<open>
  The properties of the queue that hold for every order of the events are proved from an
  invariant of the machine. It is stated over \<^verbatim>\<open>calls\<close>: link \<open>t\<close> is what call number \<open>t\<close>
  of \<^verbatim>\<open>queue\<close> built, and task \<open>t\<close> is the task passed to that call.
\<close>

fun is_settled :: "promise \<Rightarrow> bool" where
  "is_settled (Settled x) = True"
| "is_settled (Pending rs) = False"

text \<open>
  The promise a reaction settles.
\<close>

fun target :: "reaction \<Rightarrow> pid" where
  "target (Then cb d) = d"
| "target (Catch cb d) = d"
| "target (Finally name self d) = d"
| "target (Resolve d) = d"

abbreviation link :: "machine \<Rightarrow> tid \<Rightarrow> call" where
  "link s t \<equiv> calls s ! t"

text \<open>
  Task \<open>t\<close> is over: it has ended, or the promise of its \<^verbatim>\<open>then\<close> was settled without it.
\<close>

definition past :: "machine \<Rightarrow> tid \<Rightarrow> bool" where
  "past s t = (Ended t \<in> set (trace s) \<or> is_settled (promises s (then_p (link s t))))"

text \<open>
  The promises of a link are created in the order \<^verbatim>\<open>last\<close>, \<^verbatim>\<open>then\<close>, \<^verbatim>\<open>catch\<close>,
  \<^verbatim>\<open>finally\<close>; a later link has later promises; \<^verbatim>\<open>next\<close> is the promise of \<^verbatim>\<open>catch\<close>
  (\<^verbatim>\<open>server.ts\<close>) or of \<^verbatim>\<open>finally\<close> (\<^verbatim>\<open>part_001\<close>).
\<close>

definition ids_ok :: "machine \<Rightarrow> bool" where
  "ids_ok s =
     ((\<forall>t < length (calls s).
         last_p (link s t) < then_p (link s t) \<and> then_p (link s t) < catch_p (link s t) \<and>
         catch_p (link s t) < finally_p (link s t) \<and> finally_p (link s t) < fresh s \<and>
         (next_p (link s t) = catch_p (link s t) \<or> next_p (link s t) = finally_p (link s t)))
      \<and> (\<forall>t1 t2. t1 < t2 \<and> t2 < length (calls s) \<longrightarrow> finally_p (link s t1) < then_p (link s t2)))"

text \<open>
  Only tasks that were passed to \<^verbatim>\<open>queue\<close> start, and only started tasks end.
\<close>

definition trace_ok :: "machine \<Rightarrow> bool" where
  "trace_ok s =
     ((\<forall>t. Ended t \<in> set (trace s) \<longrightarrow> Started t \<in> set (trace s))
      \<and> (\<forall>t. Started t \<in> set (trace s) \<longrightarrow> t < length (calls s)))"

text \<open>
  A running task has started and has not ended; its promise belongs to no link and to no
  other task.
\<close>

definition running_ok :: "machine \<Rightarrow> bool" where
  "running_ok s =
     (\<forall>t pt. running s t = Some pt \<longrightarrow>
        t < length (calls s) \<and> pt < fresh s \<and>
        Started t \<in> set (trace s) \<and> Ended t \<notin> set (trace s))"

definition running_apart :: "machine \<Rightarrow> bool" where
  "running_apart s =
     ((\<forall>t pt t'. running s t = Some pt \<and> t' < length (calls s) \<longrightarrow>
         pt \<noteq> then_p (link s t') \<and> pt \<noteq> catch_p (link s t') \<and> pt \<noteq> finally_p (link s t'))
      \<and> (\<forall>t t' pt. running s t = Some pt \<and> running s t' = Some pt \<longrightarrow> t' = t))"

text \<open>
  The promises of a link are settled from \<^verbatim>\<open>then\<close> to \<^verbatim>\<open>finally\<close>, and the promise of
  \<^verbatim>\<open>then\<close> is settled only when the task is no longer running.
\<close>

definition settled_ok :: "machine \<Rightarrow> bool" where
  "settled_ok s =
     (\<forall>t < length (calls s).
        (is_settled (promises s (then_p (link s t))) \<and> Started t \<in> set (trace s)
           \<longrightarrow> Ended t \<in> set (trace s)) \<and>
        (is_settled (promises s (catch_p (link s t))) \<longrightarrow> is_settled (promises s (then_p (link s t)))) \<and>
        (is_settled (promises s (finally_p (link s t))) \<longrightarrow> is_settled (promises s (catch_p (link s t)))))"

text \<open>
  When a task has started, or has been skipped, every earlier task of the same name is over.
\<close>

definition order_ok :: "machine \<Rightarrow> bool" where
  "order_ok s =
     (\<forall>t1 t2. t1 < t2 \<and> t2 < length (calls s) \<and> key (link s t1) = key (link s t2) \<and>
        (Started t2 \<in> set (trace s) \<or> is_settled (promises s (then_p (link s t2))))
        \<longrightarrow> past s t1)"

text \<open>
  What a queued microtask is: the \<^verbatim>\<open>then\<close> of a link whose predecessor is settled, the
  result of an ended task, the \<^verbatim>\<open>catch\<close> of a link whose \<^verbatim>\<open>then\<close> is settled, or the
  \<^verbatim>\<open>finally\<close> of a link whose \<^verbatim>\<open>catch\<close> is settled.
\<close>

fun job_ok :: "machine \<Rightarrow> reaction \<Rightarrow> bool" where
  "job_ok s (Then cb d) =
     (\<exists>t < length (calls s). cb = CallTask t \<and> d = then_p (link s t) \<and>
        is_settled (promises s (last_p (link s t))) \<and> Started t \<notin> set (trace s) \<and>
        \<not> is_settled (promises s (then_p (link s t))) \<and>
        (\<forall>t1 < t. key (link s t1) = key (link s t) \<longrightarrow> past s t1))"
| "job_ok s (Resolve d) =
     (\<exists>t < length (calls s). d = then_p (link s t) \<and> Ended t \<in> set (trace s))"
| "job_ok s (Catch cb d) =
     (\<exists>t < length (calls s). d = catch_p (link s t) \<and>
        is_settled (promises s (then_p (link s t))) \<and>
        (cb = Rethrow (key (link s t)) (next_p (link s t)) \<or> cb = PreviousFailed))"
| "job_ok s (Finally name self d) =
     (\<exists>t < length (calls s). d = finally_p (link s t) \<and>
        is_settled (promises s (catch_p (link s t))) \<and>
        name = key (link s t) \<and> self = next_p (link s t))"

definition jobs_ok :: "machine \<Rightarrow> bool" where
  "jobs_ok s =
     ((\<forall>j \<in> set (jobs s). job_ok s (fst j)) \<and> distinct (map (\<lambda>j. target (fst j)) (jobs s)))"

text \<open>
  What a reaction registered on a pending promise is. A \<^verbatim>\<open>then\<close> waits on \<^verbatim>\<open>next\<close> of the
  latest earlier link of the same name.
\<close>

fun reaction_ok :: "machine \<Rightarrow> pid \<Rightarrow> reaction \<Rightarrow> bool" where
  "reaction_ok s p (Then cb d) =
     (\<exists>t < length (calls s). cb = CallTask t \<and> d = then_p (link s t) \<and> p = last_p (link s t) \<and>
        Started t \<notin> set (trace s) \<and> \<not> is_settled (promises s (then_p (link s t))) \<and>
        (\<exists>t' < t. p = next_p (link s t') \<and> key (link s t') = key (link s t) \<and>
           (\<forall>t1. t' < t1 \<and> t1 < t \<longrightarrow> key (link s t1) \<noteq> key (link s t))))"
| "reaction_ok s p (Resolve d) =
     (\<exists>t < length (calls s). running s t = Some p \<and> d = then_p (link s t))"
| "reaction_ok s p (Catch cb d) =
     (\<exists>t < length (calls s). p = then_p (link s t) \<and> d = catch_p (link s t) \<and>
        (cb = Rethrow (key (link s t)) (next_p (link s t)) \<or> cb = PreviousFailed))"
| "reaction_ok s p (Finally name self d) =
     (\<exists>t < length (calls s). p = catch_p (link s t) \<and> d = finally_p (link s t) \<and>
        name = key (link s t) \<and> self = next_p (link s t))"

definition reactions_ok :: "machine \<Rightarrow> bool" where
  "reactions_ok s =
     (\<forall>p rs. promises s p = Pending rs \<longrightarrow>
        distinct (map target rs) \<and> (\<forall>r \<in> set rs. reaction_ok s p r))"

text \<open>
  The map holds, for a name, \<^verbatim>\<open>next\<close> of the latest link of that name, and no \<^verbatim>\<open>then\<close> is
  registered on it yet; a name without entry has no task left to run.
\<close>

definition locks_ok :: "machine \<Rightarrow> bool" where
  "locks_ok s =
     ((\<forall>name p. locks s name = Some p \<longrightarrow>
         (\<exists>t < length (calls s). p = next_p (link s t) \<and> key (link s t) = name \<and>
            (\<forall>t1. t < t1 \<and> t1 < length (calls s) \<longrightarrow> key (link s t1) \<noteq> name)) \<and>
         (\<forall>rs cb d. promises s p = Pending rs \<longrightarrow> Then cb d \<notin> set rs))
      \<and> (\<forall>name. locks s name = None \<longrightarrow>
            (\<forall>t < length (calls s). key (link s t) = name \<longrightarrow> past s t)))"

definition inv :: "machine \<Rightarrow> bool" where
  "inv s = (ids_ok s \<and> trace_ok s \<and> running_ok s \<and> running_apart s \<and> settled_ok s \<and> order_ok s \<and> jobs_ok s \<and>
            reactions_ok s \<and> locks_ok s)"

text \<open>
  A \<^verbatim>\<open>then\<close> registered on \<^verbatim>\<open>next\<close> of link \<open>t\<close>: it belongs to the next link of the
  same name, whose task has not started.
\<close>

definition waiting_on :: "machine \<Rightarrow> tid \<Rightarrow> reaction \<Rightarrow> bool" where
  "waiting_on s t r =
     (\<exists>t2 < length (calls s). r = Then (CallTask t2) (then_p (link s t2)) \<and> t < t2 \<and>
        last_p (link s t2) = next_p (link s t) \<and> key (link s t2) = key (link s t) \<and>
        Started t2 \<notin> set (trace s) \<and> \<not> is_settled (promises s (then_p (link s t2))) \<and>
        (\<forall>t1. t < t1 \<and> t1 < t2 \<longrightarrow> key (link s t1) \<noteq> key (link s t2)))"

text \<open>
  The state after \<^verbatim>\<open>settle\<close> on a pending promise.
\<close>

definition settled_state :: "pid \<Rightarrow> settlement \<Rightarrow> reaction list \<Rightarrow> machine \<Rightarrow> machine" where
  "settled_state d x rs s =
     s\<lparr>promises := (promises s)(d := Settled x), jobs := jobs s @ map (\<lambda>r. (r, x)) rs\<rparr>"

text \<open>A step that keeps the links, lets the trace grow and keeps settled promises settled.\<close>

definition grows :: "machine \<Rightarrow> machine \<Rightarrow> bool" where
  "grows s s' =
     (length (calls s) \<le> length (calls s') \<and>
      (\<forall>t < length (calls s). link s' t = link s t) \<and>
      set (trace s) \<subseteq> set (trace s') \<and>
      (\<forall>q < fresh s. is_settled (promises s q) \<longrightarrow> is_settled (promises s' q)) \<and>
      (\<forall>t < length (calls s). is_settled (promises s' (then_p (link s t)))
          \<longrightarrow> is_settled (promises s (then_p (link s t)))))"

text \<open>
  The state after the microtask that starts task \<open>t\<close>.
\<close>

definition started_state :: "tid \<Rightarrow> pid \<Rightarrow> machine \<Rightarrow> machine" where
  "started_state t d s =
     s\<lparr>promises := (promises s)(fresh s := Pending [Resolve d]), fresh := Suc (fresh s),
       running := (running s)(t \<mapsto> fresh s), trace := trace s @ [Started t]\<rparr>"

text \<open>
  The state after task \<open>t\<close> has ended.
\<close>

definition completed_state ::
    "tid \<Rightarrow> pid \<Rightarrow> settlement \<Rightarrow> settlement \<Rightarrow> reaction list \<Rightarrow> machine \<Rightarrow> machine" where
  "completed_state t pt z x rs s =
     s\<lparr>promises := (promises s)(pt := Settled z), jobs := jobs s @ map (\<lambda>r. (r, x)) rs,
       running := (running s)(t := None), trace := trace s @ [Ended t]\<rparr>"

text \<open>
  The state after a call of \<^verbatim>\<open>queue\<close>, for both variants: \<open>b\<close> is the promise of
  \<^verbatim>\<open>then\<close>, \<open>lst\<close> is \<^verbatim>\<open>last\<close>, \<open>nxt\<close> is \<^verbatim>\<open>next\<close>.
\<close>

definition called_state ::
    "machine \<Rightarrow> string \<Rightarrow> pid \<Rightarrow> pid \<Rightarrow> callback \<Rightarrow> pid \<Rightarrow> (pid \<Rightarrow> promise) \<Rightarrow>
     (reaction \<times> settlement) list \<Rightarrow> machine" where
  "called_state s name b lst cb nxt P J =
     s\<lparr>promises := P(b := Pending [Catch cb (Suc b)],
                      Suc (Suc b) := Pending [],
                      Suc b := Pending [Finally name nxt (Suc (Suc b))]),
       fresh := Suc (Suc (Suc b)),
       locks := (locks s)(name \<mapsto> nxt),
       jobs := jobs s @ J,
       calls := calls s @ [\<lparr>key = name, last_p = lst, then_p = b, catch_p = Suc b,
                            finally_p = Suc (Suc b), next_p = nxt\<rparr>]\<rparr>"

text \<open>
  What differs between the two variants of \<^verbatim>\<open>queue\<close>: which promise is \<^verbatim>\<open>next\<close>, and the
  handler passed to \<^verbatim>\<open>catch\<close>.
\<close>

definition variant_next :: "variant \<Rightarrow> pid \<Rightarrow> pid" where
  "variant_next v b = (case v of ServerTs \<Rightarrow> Suc b | Part1 \<Rightarrow> Suc (Suc b))"

definition variant_cb :: "variant \<Rightarrow> string \<Rightarrow> pid \<Rightarrow> callback" where
  "variant_cb v name b = (case v of ServerTs \<Rightarrow> Rethrow name (Suc b) | Part1 \<Rightarrow> PreviousFailed)"

text \<open>
  The trace is serial: when a task starts, each earlier task of the same name has ended or
  never starts.
\<close>

definition serial :: "machine \<Rightarrow> bool" where
  "serial s =
     (\<forall>tr1 t2 tr2 t1. trace s = tr1 @ Started t2 # tr2 \<and> t1 < t2 \<and>
          key (link s t1) = key (link s t2) \<longrightarrow>
        Started t1 \<notin> set tr2 \<and> (Started t1 \<in> set tr1 \<longrightarrow> Ended t1 \<in> set tr1))"

text \<open>
  When a task may start.
\<close>

definition may_start :: "machine \<Rightarrow> tid \<Rightarrow> bool" where
  "may_start s t =
     (t < length (calls s) \<and> Started t \<notin> set (trace s) \<and>
      \<not> is_settled (promises s (then_p (link s t))) \<and>
      (\<forall>t1<t. key (link s t1) = key (link s t) \<longrightarrow> past s t1))"

subsection \<open>Requests in \<^verbatim>\<open>part_000\<close>\<close>

text \<open>
  \<^verbatim>\<open>part_000\<close> has no map and no \<^verbatim>\<open>queue\<close>. Both routes of its \<^verbatim>\<open>fetch\<close> make the same test
  of the name as the other variants, answer 400 when it fails, and otherwise call the
  operation themselves (\<^verbatim>\<open>await create_template(name)\<close> in line 91, the update in lines
  104 to 110): the operation of a request starts in the turn that handles the request and
  runs until its promise is settled. The state keeps the names of the operations started
  so far (operation \<open>t\<close> is the \<open>t\<close>-th of them), the operations that are running, and
  the trace.
\<close>

record server0 =
  names0 :: "string list"
  running0 :: "tid set"
  trace0 :: "trace_event list"

definition init0 :: server0 where
  "init0 = \<lparr>names0 = [], running0 = {}, trace0 = []\<rparr>"

definition fetch_part0 :: "string option \<Rightarrow> server0 \<Rightarrow> server0" where
  "fetch_part0 payload_name s =
     (case validate_name payload_name of
        Invalid400 \<Rightarrow> s
      | Enqueue name \<Rightarrow>
          s\<lparr>names0 := names0 s @ [name],
            running0 := insert (length (names0 s)) (running0 s),
            trace0 := trace0 s @ [Started (length (names0 s))]\<rparr>)"

text \<open>A request arrives, or the promise of a running operation is settled.\<close>

datatype event0 = Request "string option" | Settle tid

fun step0 :: "event0 \<Rightarrow> server0 \<Rightarrow> server0" where
  "step0 (Request payload_name) s = fetch_part0 payload_name s"
| "step0 (Settle t) s =
     (if t \<in> running0 s
      then s\<lparr>running0 := running0 s - {t}, trace0 := trace0 s @ [Ended t]\<rparr>
      else s)"

definition run0 :: "event0 list \<Rightarrow> server0 \<Rightarrow> server0" where
  "run0 evs s = fold step0 evs s"

subsection \<open>Progress\<close>

text \<open>
  Nothing gets lost: a promise of a link that is not settled yet has a microtask queued
  for it, or a reaction registered on the promise before it in the chain, or its task is
  running.
\<close>

definition has_job :: "machine \<Rightarrow> pid \<Rightarrow> bool" where
  "has_job s d = (\<exists>j \<in> set (jobs s). target (fst j) = d)"

definition awaits :: "machine \<Rightarrow> pid \<Rightarrow> pid \<Rightarrow> bool" where
  "awaits s p d = (\<exists>rs. promises s p = Pending rs \<and> (\<exists>r \<in> set rs. target r = d))"

definition due :: "machine \<Rightarrow> pid \<Rightarrow> pid \<Rightarrow> bool" where
  "due s p d = (is_settled (promises s d) \<or> has_job s d \<or> awaits s p d)"

text \<open>The promises in \<open>E\<close> are those of the microtask that is being run.\<close>

definition link_live :: "pid set \<Rightarrow> machine \<Rightarrow> tid \<Rightarrow> bool" where
  "link_live E s t =
     ((then_p (link s t) \<in> E \<or> due s (last_p (link s t)) (then_p (link s t)) \<or>
         (\<exists>pt. running s t = Some pt \<and> awaits s pt (then_p (link s t)))) \<and>
      (catch_p (link s t) \<in> E \<or> due s (then_p (link s t)) (catch_p (link s t))) \<and>
      (finally_p (link s t) \<in> E \<or> due s (catch_p (link s t)) (finally_p (link s t))))"

definition live :: "pid set \<Rightarrow> machine \<Rightarrow> bool" where
  "live E s = (\<forall>t < length (calls s). link_live E s t)"

text \<open>An entry of the map belongs to a link whose \<^verbatim>\<open>finally\<close> has not run.\<close>

definition held :: "machine \<Rightarrow> bool" where
  "held s =
     (\<forall>name t. t < length (calls s) \<and> locks s name = Some (next_p (link s t)) \<longrightarrow>
        \<not> is_settled (promises s (finally_p (link s t))))"

text \<open>
  Two more schedules for the examples: one request for the name \<^verbatim>\<open>p\<close>, or two, whose
  first task answers 200; the microtasks run until the \<^verbatim>\<open>finally\<close> callback of the first
  link is the next one.
\<close>

definition finishing_schedule :: "variant \<Rightarrow> event list" where
  "finishing_schedule v =
     [Call v ''p'', Tick, Complete 0 (Fulfil (Answer (Response 200 (Updated ''p'')))), Tick, Tick]"

definition overtaken_schedule :: "variant \<Rightarrow> event list" where
  "overtaken_schedule v =
     [Call v ''p'', Call v ''p'', Tick, Complete 0 (Fulfil (Answer (Response 200 (Updated ''p'')))),
      Tick, Tick]"

subsection \<open>The tasks of the routes\<close>

text \<open>
  The tasks the routes pass to \<^verbatim>\<open>queue\<close> have their whole body in \<^verbatim>\<open>try\<close> and \<^verbatim>\<open>catch\<close>
  and return a response from both: the promise of such a task is fulfilled with a
  response, or it is never settled. \<open>task_event t r\<close> is what task \<open>t\<close> with the result \<open>r\<close>
  (of \<^verbatim>\<open>update_task\<close>, say) tells the queue, and \<open>answers\<close> holds of the events that tasks of
  this kind can cause.
\<close>

definition task_event :: "tid \<Rightarrow> response option \<Rightarrow> event list" where
  "task_event t r = (case r of None \<Rightarrow> [] | Some resp \<Rightarrow> [Complete t (Fulfil (Answer resp))])"

fun answers :: "event \<Rightarrow> bool" where
  "answers (Complete t (Fulfil (Answer resp))) = True"
| "answers (Complete t (Fulfil Null)) = False"
| "answers (Complete t (Fulfil (Failure e))) = False"
| "answers (Complete t (Reject e)) = False"
| "answers (Call v name) = True"
| "answers Tick = True"

fun fulfilled :: "settlement \<Rightarrow> bool" where
  "fulfilled (Fulfil v) = True"
| "fulfilled (Reject e) = False"

text \<open>No promise and no microtask carries a rejection.\<close>

definition unrejected :: "machine \<Rightarrow> bool" where
  "unrejected s =
     ((\<forall>p x. promises s p = Settled x \<longrightarrow> fulfilled x) \<and> (\<forall>j \<in> set (jobs s). fulfilled (snd j)))"

text \<open>The promise of \<^verbatim>\<open>then\<close> of a link is settled only when its task has run.\<close>

definition ran :: "machine \<Rightarrow> bool" where
  "ran s =
     (\<forall>t < length (calls s). is_settled (promises s (then_p (link s t))) \<longrightarrow> Ended t \<in> set (trace s))"

text \<open>
  The trace is strictly serial: when a task starts, every earlier task of the same name
  has ended.
\<close>

definition in_turn :: "machine \<Rightarrow> bool" where
  "in_turn s =
     (\<forall>tr1 t2 tr2 t1. trace s = tr1 @ Started t2 # tr2 \<and> t1 < t2 \<and>
          key (link s t1) = key (link s t2) \<longrightarrow> Ended t1 \<in> set tr1)"

subsection \<open>The results of the tasks\<close>








section \<open>Properties of the manifest rewrite\<close>

lemmas word_simps = matches_at_def word_boundary_def ends_word_def starts_word_def
  is_word_char_def word_chars_def

lemma get_substitution_plain:
  "CHR ''$'' \<notin> set replacement \<Longrightarrow> get_substitution matched pre post replacement = replacement"
  by (induction matched pre post replacement rule: get_substitution.induct) auto

lemma replace_acme: "replace_template ''run template build'' ''acme'' = ''run acme build''"
  by (simp add: replace_template_def word_simps)

lemma replace_plural: "replace_template ''copy templates'' ''acme'' = ''copy templates''"
  by (simp add: replace_template_def word_simps)

lemma rewrite_manifest_acme:
  "rewrite_manifest ''acme''
     (JObj [(''name'', JStr ''template''), (''scripts'', JObj [(''build'', JStr ''run template build'')])])
   = Inr (JObj [(''name'', JStr ''acme''), (''scripts'', JObj [(''build'', JStr ''run acme build'')])])"
  by (simp add: rewrite_value_def replace_acme)

text \<open>
  Claim C5. The rewrite is claimed to put the project name in the place of every standalone
  word \<^verbatim>\<open>template\<close> of every script. For the project name \<^verbatim>\<open>$&\<close>, which the validation
  accepts, \<^verbatim>\<open>replace\<close> reads the name as a replacement pattern that stands for the matched
  text: the script \<^verbatim>\<open>run template build\<close> is left as it is, where the claim asks for
  \<^verbatim>\<open>run $& build\<close>.
\<close>

theorem rewrite_manifest_dollar_name:
  "rewrite_manifest ''$&''
     (JObj [(''name'', JStr ''template''), (''scripts'', JObj [(''build'', JStr ''run template build'')])])
   = Inr (JObj [(''name'', JStr ''$&''), (''scripts'', JObj [(''build'', JStr ''run template build'')])])"
  by (simp add: rewrite_value_def replace_template_def word_simps)

section \<open>Properties of the name validation and of the paths\<close>

lemma foldl_push_plain: "\<forall>s \<in> set segs. plain_seg s \<Longrightarrow> foldl push_seg acc segs = acc @ segs"
  by (induction segs arbitrary: acc) (simp_all add: push_seg_def plain_seg_def)

lemma push_seg_plain: "\<forall>s \<in> set p. plain_seg s \<Longrightarrow> \<forall>s \<in> set (push_seg p s'). plain_seg s"
  by (auto simp: push_seg_def plain_seg_def dest: in_set_butlastD)

lemma foldl_push_seg_plain:
  "\<forall>s \<in> set acc. plain_seg s \<Longrightarrow> \<forall>s \<in> set (foldl push_seg acc segs). plain_seg s"
proof (induction segs arbitrary: acc)
  case Nil
  then show ?case by simp
next
  case (Cons a segs)
  have "\<forall>s \<in> set (push_seg acc a). plain_seg s"
    using Cons.prems by (rule push_seg_plain)
  then show ?case using Cons.IH by simp
qed

lemma normalize_segs_plain: "\<forall>s \<in> set (normalize_segs segs). plain_seg s"
  unfolding normalize_segs_def by (rule foldl_push_seg_plain) simp

lemma normalize_segs_again:
  "normalize_segs (normalize_segs segs @ rest) = foldl push_seg (normalize_segs segs) rest"
proof -
  have "foldl push_seg [] (normalize_segs segs) = normalize_segs segs"
    using foldl_push_plain [OF normalize_segs_plain, where acc = "[]"] by simp
  then show ?thesis by (simp add: normalize_segs_def)
qed

lemma OUTPUT_DIR_eq: "OUTPUT_DIR c = butlast (normalize_segs c) @ [''components'']"
  by (simp add: OUTPUT_DIR_def path_resolve_def normalize_segs_def push_seg_def)

lemma target_dir_dotdot: "target_dir c ''..'' = butlast (OUTPUT_DIR c)"
  by (simp add: target_dir_def path_join_def OUTPUT_DIR_def path_resolve_def normalize_segs_again)
     (simp add: push_seg_def)

text \<open>
  Claim C9. The validation lets every name pass that, once trimmed, is not empty and has
  neither a slash nor a backslash; the name \<^verbatim>\<open>..\<close> is one of them, and for it the
  directory \<^verbatim>\<open>create_template\<close> works on is the parent of the output root, which does not
  lie inside the output root.
\<close>

theorem dotdot_leaves_output_dir:
  "(trim raw \<noteq> [] \<and> \<not> has_separator (trim raw) \<longrightarrow> validate_name (Some raw) = Enqueue (trim raw))
   \<and> validate_name (Some ''..'') = Enqueue ''..''
   \<and> OUTPUT_DIR c \<noteq> []
   \<and> target_dir c ''..'' = butlast (OUTPUT_DIR c)
   \<and> \<not> inside (OUTPUT_DIR c) (target_dir c ''..'')"
proof -
  have a: "trim raw \<noteq> [] \<and> \<not> has_separator (trim raw) \<longrightarrow> validate_name (Some raw) = Enqueue (trim raw)"
    by (simp add: validate_name_def Let_def)
  have b: "validate_name (Some ''..'') = Enqueue ''..''"
    by (simp add: validate_name_def trim_def is_space_def has_separator_def)
  have c: "OUTPUT_DIR c \<noteq> []"
    by (simp add: OUTPUT_DIR_eq)
  have d: "\<not> inside (OUTPUT_DIR c) (target_dir c ''..'')"
  proof
    assume "inside (OUTPUT_DIR c) (target_dir c ''..'')"
    then have "prefix (OUTPUT_DIR c) (butlast (OUTPUT_DIR c))"
      by (simp add: inside_def target_dir_dotdot)
    then have "length (OUTPUT_DIR c) \<le> length (butlast (OUTPUT_DIR c))"
      by (rule prefix_length_le)
    then show False
      by (simp add: OUTPUT_DIR_eq)
  qed
  show ?thesis using a b c d target_dir_dotdot by blast
qed

theorem dotdot_leaves_output_dir_witness:
  "trim '' a$b '' \<noteq> [] \<and> \<not> has_separator (trim '' a$b '')
   \<and> validate_name (Some '' a$b '') = Enqueue ''a$b''
   \<and> target_dir [''srv'', ''api''] ''..'' = [''srv'']
   \<and> \<not> inside [''srv'', ''components''] (target_dir [''srv'', ''api''] ''..'')"
proof -
  have t: "trim '' a$b '' = ''a$b''"
    by (simp add: trim_def is_space_def)
  have o: "OUTPUT_DIR [''srv'', ''api''] = [''srv'', ''components'']"
    by (simp add: OUTPUT_DIR_eq normalize_segs_def push_seg_def)
  have h: "trim '' a$b '' \<noteq> [] \<and> \<not> has_separator (trim '' a$b '')"
    by (simp add: t has_separator_def)
  show ?thesis
    using h t o dotdot_leaves_output_dir [of "'' a$b ''" "[''srv'', ''api'']"]
    by auto
qed

section \<open>Properties of the mutation operations\<close>

lemma acme_paths:
  "view_path (cwd env0) ''acme'' = [''srv'', ''components'', ''acme'', ''src'', ''App.vue'']"
  "server_path (cwd env0) ''acme'' = [''srv'', ''components'', ''acme'', ''src'', ''server.ts'']"
  by (simp_all add: view_path_def server_path_def env0_def OUTPUT_DIR_def path_resolve_def
      path_join_def normalize_segs_def push_seg_def)

lemma access_absent:
  "nodes w p = None \<Longrightarrow>
   access E p w = Inl (case resolve_error E (nodes w) p of None \<Rightarrow> ENOENT | Some code \<Rightarrow> code)"
  by (simp add: access_def split: option.splits)

lemma access_ok: "access E p w = Inr u \<Longrightarrow> nodes w p \<noteq> None"
  by (simp add: access_def split: if_splits option.splits)

lemma write_file_dom:
  "write_file E p content w = Inr w' \<Longrightarrow> nodes w p \<noteq> None \<Longrightarrow> dom (nodes w') = dom (nodes w)"
  by (auto simp: write_file_def split: if_splits option.splits node.splits)

lemma overwrite_dom:
  "dom (nodes (snd (case access E p w of
        Inl code \<Rightarrow> (Threw (caught code p), w)
      | Inr u \<Rightarrow>
          (case write_file E p content w of
             Inl code \<Rightarrow> (Threw (caught code p), w)
           | Inr w' \<Rightarrow> (Done (), w'))))) = dom (nodes w)"
  using access_ok [of E p w] write_file_dom [of E p content w]
  by (auto split: sum.splits)

lemma overwrite_absent:
  "nodes w p = None \<Longrightarrow>
   (case access E p w of
      Inl code \<Rightarrow> (Threw (caught code p), w)
    | Inr u \<Rightarrow>
        (case write_file E p content w of
           Inl code \<Rightarrow> (Threw (caught code p), w)
         | Inr w' \<Rightarrow> (Done (), w')))
   = (Threw (case resolve_error E (nodes w) p of
               None \<Rightarrow> NotFoundError p
             | Some code \<Rightarrow> if code = ENOENT then NotFoundError p else FileSystemError), w)"
  by (simp add: access_absent caught_def split: option.splits)

text \<open>
  Claim C6, as stated, fails: a mutation whose file does not exist is claimed to fail with
  the not-found error. Here \<^verbatim>\<open>acme\<close> in the output directory is a regular file;
  \<^verbatim>\<open>access\<close> fails with \<^verbatim>\<open>ENOTDIR\<close>, which the \<^verbatim>\<open>catch\<close> block of \<^verbatim>\<open>update_view\<close> turns into
  the error "File system error occurred".
\<close>

theorem mutation_below_regular_file:
  "nodes world2 (view_path (cwd env0) ''acme'') = None
   \<and> update_view env0 ''acme'' ''<p/>'' world2 = (Threw FileSystemError, world2)
   \<and> update_view env0 ''acme'' ''<p/>'' world2
       \<noteq> (Threw (NotFoundError (view_path (cwd env0) ''acme'')), world2)"
  by (simp add: update_view_def access_def resolve_error_def under_file_def caught_def acme_paths
      world2_def)

text \<open>
  Claim C6, amended. When the file a mutation is aimed at (\<^verbatim>\<open>App.vue\<close> or \<^verbatim>\<open>server.ts\<close> in
  the source directory of the project) does not exist, the mutation fails and the world is
  as before. It fails with the not-found error when the path resolves up to the file, or
  the resolution stops with \<^verbatim>\<open>ENOENT\<close>; it fails with the file-system error when the
  resolution stops with another code, which is \<^verbatim>\<open>ENOTDIR\<close> when a component of the path
  above the file is a regular file. Whatever the result, a mutation leaves the set of
  existing nodes as it was: it writes to an existing file only.
\<close>

theorem mutation_needs_existing_file:
  "(nodes w (view_path (cwd E) name) = None \<longrightarrow>
      update_view E name content w =
        (Threw (case resolve_error E (nodes w) (view_path (cwd E) name) of
                  None \<Rightarrow> NotFoundError (view_path (cwd E) name)
                | Some code \<Rightarrow> if code = ENOENT then NotFoundError (view_path (cwd E) name)
                               else FileSystemError), w))
   \<and> (nodes w (server_path (cwd E) name) = None \<longrightarrow>
      update_server E name content w =
        (Threw (case resolve_error E (nodes w) (server_path (cwd E) name) of
                  None \<Rightarrow> NotFoundError (server_path (cwd E) name)
                | Some code \<Rightarrow> if code = ENOENT then NotFoundError (server_path (cwd E) name)
                               else FileSystemError), w))
   \<and> (under_file (nodes w) (view_path (cwd E) name)
        \<longrightarrow> resolve_error E (nodes w) (view_path (cwd E) name) = Some ENOTDIR)
   \<and> (under_file (nodes w) (server_path (cwd E) name)
        \<longrightarrow> resolve_error E (nodes w) (server_path (cwd E) name) = Some ENOTDIR)
   \<and> dom (nodes (snd (update_view E name content w))) = dom (nodes w)
   \<and> dom (nodes (snd (update_server E name content w))) = dom (nodes w)"
  unfolding update_view_def update_server_def Let_def
  using overwrite_absent overwrite_dom by (simp add: resolve_error_def)

theorem mutation_needs_existing_file_witness:
  "nodes world0 (server_path (cwd env0) ''acme'') = None
   \<and> resolve_error env0 (nodes world0) (server_path (cwd env0) ''acme'') = None
   \<and> update_server env0 ''acme'' ''x'' world0
       = (Threw (NotFoundError [''srv'', ''components'', ''acme'', ''src'', ''server.ts'']), world0)
   \<and> dom (nodes (snd (update_server env0 ''acme'' ''x'' world0))) = {}
   \<and> nodes world2 (view_path (cwd env0) ''acme'') = None
   \<and> under_file (nodes world2) (view_path (cwd env0) ''acme'')
   \<and> update_view env0 ''acme'' ''x'' world2 = (Threw FileSystemError, world2)"
proof -
  have h: "nodes world0 (server_path (cwd env0) ''acme'') = None"
    "resolve_error env0 (nodes world0) (server_path (cwd env0) ''acme'') = None"
    unfolding acme_paths
    by (simp_all add: world0_def resolve_error_def under_file_def env0_def)
  have k: "nodes world2 (view_path (cwd env0) ''acme'') = None"
    "under_file (nodes world2) (view_path (cwd env0) ''acme'')"
    by (simp_all add: world2_def acme_paths under_file_def)
  have d: "dom (nodes world0) = {}"
    by (simp add: world0_def)
  show ?thesis
    using h k d mutation_needs_existing_file [of world0 env0 "''acme''" "''x''"]
      mutation_needs_existing_file [of world2 env0 "''acme''" "''x''"]
    by (simp add: acme_paths)
qed

text \<open>
  The \<^verbatim>\<open>update_server\<close> of \<^verbatim>\<open>part_000\<close> looks for \<^verbatim>\<open>server.ts\<close> in the project directory
  itself: with a file there it writes, whether or not the source directory has one.
\<close>

lemma update_server_part0_other_file:
  "update_server_part0 env0 ''acme'' ''x''
     \<lparr>nodes = [[''srv'', ''components'', ''acme'', ''server.ts''] \<mapsto> File ''old''], spawned = []\<rparr>
   = (Done (),
      \<lparr>nodes = [[''srv'', ''components'', ''acme'', ''server.ts''] \<mapsto> File ''x''], spawned = []\<rparr>)"
  by (simp add: update_server_part0_def server_path_part0_def access_def write_file_def
      resolve_error_def under_file_def env0_def OUTPUT_DIR_def path_resolve_def path_join_def normalize_segs_def
      push_seg_def)

section \<open>Properties of the build pipeline step\<close>

lemma run_command_settles:
  "fst (run_command E command args dir w) = on_events (fst (child E command args dir (nodes w)))"
  by (simp add: run_command_def split: prod.splits)

lemma on_events_resolved: "(on_events evs = Resolved) = (\<exists>rest. evs = Close (Some 0) # rest)"
  by (cases evs rule: on_events.cases) auto

text \<open>
  Claim C7. A process that cannot be started is claimed to make the step fail with the
  spawn error. The \<^verbatim>\<open>run_command\<close> of \<^verbatim>\<open>server.ts\<close> does so; the one of \<^verbatim>\<open>part_000\<close>
  has no listener for the \<^verbatim>\<open>error\<close> event and its promise is not settled.
\<close>

theorem run_command_part0_spawn_failure:
  "fst (run_command_part0 (env0\<lparr>child := (\<lambda>command args dir ns. ([SpawnFailed], ns))\<rparr>)
          ''pnpm'' [''build''] [''srv'', ''components'', ''acme''] world0) = Uncaught
   \<and> fst (run_command (env0\<lparr>child := (\<lambda>command args dir ns. ([SpawnFailed], ns))\<rparr>)
          ''pnpm'' [''build''] [''srv'', ''components'', ''acme''] world0) = Rejected SpawnError"
  by (simp add: run_command_part0_def run_command_def env0_def)

section \<open>Properties of the update operation\<close>



lemma and_then_Done: "and_then (Done u, w) k = k w"
  by (simp add: and_then_def)























section \<open>Properties of the queue: examples, and independence of the names\<close>

lemmas machine_simps = run_def init_def queue_def queue_part1_def promise_then_def promise_catch_def
  promise_finally_def new_promise_def subscribe_def settle_def cleanup_def start_task_def
  resolve_with_def Let_def

text \<open>
  What \<^verbatim>\<open>queue\<close> would do with a task whose promise is rejected. No task of the routes is
  of this kind: they catch every error and return a response. With the \<^verbatim>\<open>queue\<close> of
  \<^verbatim>\<open>server.ts\<close> and the second call made before the first task has finished, the
  rejection of task 0 would travel down the chain: task 1 is not started, and the promise
  returned to the second caller (promise 5) is rejected with the error of task 0.
\<close>

lemma server_queue_skips_after_rejection:
  "map next_p (calls (run (rejecting_schedule ServerTs) init)) = [2, 5]
   \<and> trace (run (rejecting_schedule ServerTs) init) = [Started 0, Ended 0]
   \<and> promises (run (rejecting_schedule ServerTs) init) 5
        = Settled (Reject (Failure (PipelineError (Some 1))))
   \<and> jobs (run (rejecting_schedule ServerTs) init) = []
   \<and> running (run (rejecting_schedule ServerTs) init) 1 = None"
  by (simp add: rejecting_schedule_def machine_simps)

text \<open>
  With the \<^verbatim>\<open>queue\<close> of \<^verbatim>\<open>part_001\<close> the same schedule starts task 1: there the handler
  passed to \<^verbatim>\<open>catch\<close> returns a response, and no promise of the chain is rejected.
\<close>

lemma part1_queue_runs_after_rejection:
  "map next_p (calls (run (rejecting_schedule Part1) init)) = [3, 6]
   \<and> trace (run (rejecting_schedule Part1) init) = [Started 0, Ended 0, Started 1]
   \<and> promises (run (rejecting_schedule Part1) init) 3
        = Settled (Fulfil (Answer (Response 500 (Text ''Previous task failed''))))
   \<and> running (run (rejecting_schedule Part1) init) 1 = Some 8
   \<and> map key (calls (run (rejecting_schedule Part1) init)) = [''p'', ''p'']"
  by (simp add: rejecting_schedule_def machine_simps)




lemma jobs_start_task: "jobs (snd (start_task t s)) = jobs s"
  by (simp add: start_task_def new_promise_def)







lemma run_append: "run (evs @ evs') s = run evs' (run evs s)"
  by (simp add: run_def)













lemma call_jobs: "\<exists>new. jobs (step (Call v name) s) = jobs s @ new"
  by (cases v) (auto simp: machine_simps split: option.splits promise.splits)







section \<open>The invariant holds in every reachable state\<close>

lemma inv_init: "inv init"
  by (simp add: inv_def init_def ids_ok_def trace_ok_def running_ok_def running_apart_def
      settled_ok_def order_ok_def
      jobs_ok_def reactions_ok_def locks_ok_def)

(* quick test of the invariant on reachable states by evaluation is not possible (quantifiers over nat);
   instead test preservation for Complete *)

lemma ids_okD1:
  "ids_ok s \<Longrightarrow> t < length (calls s) \<Longrightarrow>
   last_p (link s t) < then_p (link s t) \<and> then_p (link s t) < catch_p (link s t) \<and>
   catch_p (link s t) < finally_p (link s t) \<and> finally_p (link s t) < fresh s \<and>
   (next_p (link s t) = catch_p (link s t) \<or> next_p (link s t) = finally_p (link s t))"
  by (simp add: ids_ok_def)

lemma ids_okD2:
  "ids_ok s \<Longrightarrow> t1 < t2 \<Longrightarrow> t2 < length (calls s) \<Longrightarrow> finally_p (link s t1) < then_p (link s t2)"
  by (simp add: ids_ok_def)

lemma ids_inj:
  assumes "ids_ok s" "t < length (calls s)" "t' < length (calls s)"
  shows "then_p (link s t) = then_p (link s t') \<Longrightarrow> t = t'"
    and "catch_p (link s t) = catch_p (link s t') \<Longrightarrow> t = t'"
    and "finally_p (link s t) = finally_p (link s t') \<Longrightarrow> t = t'"
    and "then_p (link s t) \<noteq> catch_p (link s t')"
    and "then_p (link s t) \<noteq> finally_p (link s t')"
    and "catch_p (link s t) \<noteq> finally_p (link s t')"
    and "catch_p (link s t) \<noteq> then_p (link s t')"
    and "finally_p (link s t) \<noteq> then_p (link s t')"
    and "finally_p (link s t) \<noteq> catch_p (link s t')"
proof -
  note a = ids_okD1 [OF assms(1) assms(2)] ids_okD1 [OF assms(1) assms(3)]
  have b: "t < t' \<Longrightarrow> finally_p (link s t) < then_p (link s t')"
    using ids_okD2 [OF assms(1) _ assms(3)] by simp
  have c: "t' < t \<Longrightarrow> finally_p (link s t') < then_p (link s t)"
    using ids_okD2 [OF assms(1) _ assms(2)] by simp
  show "then_p (link s t) = then_p (link s t') \<Longrightarrow> t = t'"
    using a b c by (cases t t' rule: linorder_cases) auto
  show "catch_p (link s t) = catch_p (link s t') \<Longrightarrow> t = t'"
    using a b c by (cases t t' rule: linorder_cases) auto
  show "finally_p (link s t) = finally_p (link s t') \<Longrightarrow> t = t'"
    using a b c by (cases t t' rule: linorder_cases) auto
  show "then_p (link s t) \<noteq> catch_p (link s t')"
    using a b c by (cases t t' rule: linorder_cases) auto
  show "then_p (link s t) \<noteq> finally_p (link s t')"
    using a b c by (cases t t' rule: linorder_cases) auto
  show "catch_p (link s t) \<noteq> finally_p (link s t')"
    using a b c by (cases t t' rule: linorder_cases) auto
  show "catch_p (link s t) \<noteq> then_p (link s t')"
    using a b c by (cases t t' rule: linorder_cases) auto
  show "finally_p (link s t) \<noteq> then_p (link s t')"
    using a b c by (cases t t' rule: linorder_cases) auto
  show "finally_p (link s t) \<noteq> catch_p (link s t')"
    using a b c by (cases t t' rule: linorder_cases) auto
qed

lemma next_p_cases:
  "ids_ok s \<Longrightarrow> t < length (calls s) \<Longrightarrow>
   next_p (link s t) = catch_p (link s t) \<or> next_p (link s t) = finally_p (link s t)"
  by (simp add: ids_okD1)

lemma next_p_link:
  assumes "ids_ok s" "t < length (calls s)" "t' < length (calls s)"
  shows "next_p (link s t) \<noteq> then_p (link s t')"
    and "next_p (link s t) = next_p (link s t') \<Longrightarrow> t = t'"
    and "next_p (link s t) = catch_p (link s t') \<Longrightarrow> t = t'"
    and "next_p (link s t) = finally_p (link s t') \<Longrightarrow> t = t'"
proof -
  note n = next_p_cases [OF assms(1) assms(2)]
  note n' = next_p_cases [OF assms(1) assms(3)]
  note inj = ids_inj [OF assms] 
  note inj' = ids_inj [OF assms(1) assms(3) assms(2)]
  show "next_p (link s t) \<noteq> then_p (link s t')"
    using n inj(7,8) by metis
  show c: "next_p (link s t) = catch_p (link s t') \<Longrightarrow> t = t'"
    using n inj(2) inj'(6) by metis
  show f: "next_p (link s t) = finally_p (link s t') \<Longrightarrow> t = t'"
    using n inj(3) inj(6) by metis
  show "next_p (link s t) = next_p (link s t') \<Longrightarrow> t = t'"
    using n' c f by metis
qed

lemma past_mono:
  assumes "calls s' = calls s" "set (trace s) \<subseteq> set (trace s')"
    "\<And>p. is_settled (promises s p) \<Longrightarrow> is_settled (promises s' p)"
  shows "past s t \<Longrightarrow> past s' t"
  using assms by (auto simp: past_def)

lemma job_ok_frame:
  assumes "calls s' = calls s" "trace s' = trace s" "promises s' = promises s"
  shows "job_ok s' r = job_ok s r"
  using assms by (cases r) (simp_all add: past_def)

lemma reaction_ok_frame:
  assumes "calls s' = calls s" "trace s' = trace s" "promises s' = promises s" "running s' = running s"
  shows "reaction_ok s' p r = reaction_ok s p r"
  using assms by (cases r) (simp_all add: past_def)

lemma ids_ok_frame:
  assumes "ids_ok s" and e: "calls s' = calls s" "fresh s' = fresh s"
  shows "ids_ok s'"
proof -
  have "ids_ok s' = ids_ok s"
    unfolding ids_ok_def by (simp only: e)
  with assms(1) show ?thesis by simp
qed

lemma trace_ok_frame:
  assumes "trace_ok s" and e: "calls s' = calls s" "trace s' = trace s"
  shows "trace_ok s'"
proof -
  have "trace_ok s' = trace_ok s"
    unfolding trace_ok_def by (simp only: e)
  with assms(1) show ?thesis by simp
qed

lemma running_ok_frame:
  assumes "running_ok s" and e: "calls s' = calls s" "trace s' = trace s" "fresh s' = fresh s"
    "running s' = running s"
  shows "running_ok s'"
proof -
  have "running_ok s' = running_ok s"
    unfolding running_ok_def by (simp only: e)
  with assms(1) show ?thesis by simp
qed

lemma running_apart_frame:
  assumes "running_apart s" and e: "calls s' = calls s" "running s' = running s"
  shows "running_apart s'"
proof -
  have "running_apart s' = running_apart s"
    unfolding running_apart_def by (simp only: e)
  with assms(1) show ?thesis by simp
qed

lemma settled_ok_frame:
  assumes "settled_ok s" and e: "calls s' = calls s" "trace s' = trace s" "promises s' = promises s"
  shows "settled_ok s'"
proof -
  have "settled_ok s' = settled_ok s"
    unfolding settled_ok_def by (simp only: e)
  with assms(1) show ?thesis by simp
qed

lemma past_frame:
  "calls s' = calls s \<Longrightarrow> trace s' = trace s \<Longrightarrow> promises s' = promises s \<Longrightarrow> past s' t = past s t"
  by (simp add: past_def)

lemma order_ok_frame:
  assumes "order_ok s" and e: "calls s' = calls s" "trace s' = trace s" "promises s' = promises s"
  shows "order_ok s'"
proof -
  have "order_ok s' = order_ok s"
    unfolding order_ok_def past_def by (simp only: e)
  with assms(1) show ?thesis by simp
qed

lemma jobs_ok_frame:
  assumes "jobs_ok s" and e: "calls s' = calls s" "trace s' = trace s" "promises s' = promises s"
    and j: "jobs s' = jobs s"
  shows "jobs_ok s'"
proof -
  have "job_ok s' = job_ok s"
    by (intro ext) (rule job_ok_frame [OF e])
  then have "jobs_ok s' = jobs_ok s"
    unfolding jobs_ok_def by (simp only: j)
  with assms(1) show ?thesis by simp
qed

lemma reactions_ok_frame:
  assumes "reactions_ok s" and e: "calls s' = calls s" "trace s' = trace s" "promises s' = promises s"
    "running s' = running s"
  shows "reactions_ok s'"
proof -
  have "reaction_ok s' = reaction_ok s"
    by (intro ext) (rule reaction_ok_frame [OF e])
  then have "reactions_ok s' = reactions_ok s"
    unfolding reactions_ok_def by (simp only: e(3))
  with assms(1) show ?thesis by simp
qed

lemma locks_ok_frame:
  assumes "locks_ok s" and e: "calls s' = calls s" "trace s' = trace s" "promises s' = promises s"
    "locks s' = locks s"
  shows "locks_ok s'"
proof -
  have "locks_ok s' = locks_ok s"
    unfolding locks_ok_def past_def by (simp only: e)
  with assms(1) show ?thesis by simp
qed

lemma invD:
  assumes "inv s"
  shows "ids_ok s" "trace_ok s" "running_ok s" "running_apart s" "settled_ok s" "order_ok s"
    "jobs_ok s" "reactions_ok s" "locks_ok s"
  using assms by (simp_all add: inv_def)

lemma invI:
  "ids_ok s \<Longrightarrow> trace_ok s \<Longrightarrow> running_ok s \<Longrightarrow> running_apart s \<Longrightarrow> settled_ok s \<Longrightarrow> order_ok s \<Longrightarrow>
   jobs_ok s \<Longrightarrow> reactions_ok s \<Longrightarrow> locks_ok s \<Longrightarrow> inv s"
  by (simp add: inv_def)

lemma inv_pop:
  assumes "inv s" "jobs s = j # js"
  shows "inv (s\<lparr>jobs := js\<rparr>)"
    and "job_ok (s\<lparr>jobs := js\<rparr>) (fst j)"
    and "\<forall>j' \<in> set (jobs (s\<lparr>jobs := js\<rparr>)). target (fst j') \<noteq> target (fst j)"
proof -
  let ?s = "s\<lparr>jobs := js\<rparr>"
  note i = invD [OF assms(1)]
  have f: "job_ok ?s r = job_ok s r" for r
    by (rule job_ok_frame) simp_all
  show "job_ok ?s (fst j)"
    using i(7) assms(2) by (simp add: jobs_ok_def f)
  show "\<forall>j' \<in> set (jobs ?s). target (fst j') \<noteq> target (fst j)"
  proof -
    from i(7) assms(2) have "distinct (map (\<lambda>j. target (fst j)) (j # js))"
      by (simp add: jobs_ok_def)
    then have "target (fst j) \<notin> (\<lambda>j. target (fst j)) ` set js"
      by simp
    then show ?thesis by (simp add: image_iff) metis
  qed
  have "jobs_ok ?s"
    using i(7) assms(2) by (simp add: jobs_ok_def f)
  moreover have "ids_ok ?s" by (rule ids_ok_frame [OF i(1)]) simp_all
  moreover have "trace_ok ?s" by (rule trace_ok_frame [OF i(2)]) simp_all
  moreover have "running_ok ?s" by (rule running_ok_frame [OF i(3)]) simp_all
  moreover have "running_apart ?s" by (rule running_apart_frame [OF i(4)]) simp_all
  moreover have "settled_ok ?s" by (rule settled_ok_frame [OF i(5)]) simp_all
  moreover have "order_ok ?s" by (rule order_ok_frame [OF i(6)]) simp_all
  moreover have "reactions_ok ?s" by (rule reactions_ok_frame [OF i(8)]) simp_all
  moreover have "locks_ok ?s" by (rule locks_ok_frame [OF i(9)]) simp_all
  ultimately show "inv ?s"
    by (simp add: inv_def)
qed

lemma inv_cleanup:
  assumes "inv s" "t < length (calls s)" "is_settled (promises s (then_p (link s t)))"
  shows "inv (cleanup (key (link s t)) (next_p (link s t)) s)"
proof (cases "locks s (key (link s t)) = Some (next_p (link s t))")
  case False
  with assms(1) show ?thesis by (simp add: cleanup_def)
next
  case True
  let ?s = "s\<lparr>locks := (locks s)(key (link s t) := None)\<rparr>"
  have st: "cleanup (key (link s t)) (next_p (link s t)) s = ?s"
    using True by (simp add: cleanup_def)
  have p: "past ?s t' = past s t'" for t'
    by (simp add: past_def)
  note i = invD [OF assms(1)]
  note lo1 = i(9) [unfolded locks_ok_def, THEN conjunct1, rule_format]
  note lo2 = i(9) [unfolded locks_ok_def, THEN conjunct2, rule_format]
  from lo1 [OF True] obtain t0 where t0: "t0 < length (calls s)"
    "next_p (link s t) = next_p (link s t0)"
    "\<forall>t1. t0 < t1 \<and> t1 < length (calls s) \<longrightarrow> key (link s t1) \<noteq> key (link s t)"
    by blast
  from next_p_link(2) [OF i(1) assms(2) t0(1) t0(2)] have tt: "t0 = t" by simp
  have all_past: "past s t1" if "t1 < length (calls s)" "key (link s t1) = key (link s t)" for t1
  proof (cases t1 t rule: linorder_cases)
    case less
    with i(6) assms(2,3) that show ?thesis
      unfolding order_ok_def by blast
  next
    case equal
    with assms(3) show ?thesis by (simp add: past_def)
  next
    case greater
    with t0(3) tt that show ?thesis by blast
  qed
  have k2: "(\<exists>t<length (calls ?s). q = next_p (link ?s t) \<and> key (link ?s t) = name \<and>
            (\<forall>t1. t < t1 \<and> t1 < length (calls ?s) \<longrightarrow> key (link ?s t1) \<noteq> name)) \<and>
          (\<forall>rs cb d. promises ?s q = Pending rs \<longrightarrow> Then cb d \<notin> set rs)"
    if a: "locks ?s name = Some q" for name q
  proof -
    from a have b: "locks s name = Some q" by (simp split: if_splits)
    from lo1 [OF b] show ?thesis by simp
  qed
  have k1: "past ?s t1"
    if a: "locks ?s name = None" "t1 < length (calls ?s)" "key (link ?s t1) = name" for name t1
  proof (cases "name = key (link s t)")
    case True
    with a all_past [of t1] show ?thesis by (simp add: p)
  next
    case False
    with a lo2 [of name t1] show ?thesis by (simp add: p)
  qed
  have "locks_ok ?s"
    unfolding locks_ok_def
    apply (rule conjI)
    subgoal by (intro allI impI) (rule k2)
    subgoal by (intro allI impI) (rule k1)
    done
  moreover have "jobs_ok ?s" by (rule jobs_ok_frame [OF i(7)]) simp_all
  moreover have "ids_ok ?s" by (rule ids_ok_frame [OF i(1)]) simp_all
  moreover have "trace_ok ?s" by (rule trace_ok_frame [OF i(2)]) simp_all
  moreover have "running_ok ?s" by (rule running_ok_frame [OF i(3)]) simp_all
  moreover have "running_apart ?s" by (rule running_apart_frame [OF i(4)]) simp_all
  moreover have "settled_ok ?s" by (rule settled_ok_frame [OF i(5)]) simp_all
  moreover have "order_ok ?s" by (rule order_ok_frame [OF i(6)]) simp_all
  moreover have "reactions_ok ?s" by (rule reactions_ok_frame [OF i(8)]) simp_all
  ultimately show ?thesis
    unfolding st by (simp add: inv_def)
qed

lemma last_lt_fresh:
  assumes "ids_ok s" "t < length (calls s)"
  shows "then_p (link s t) < fresh s" "catch_p (link s t) < fresh s" "finally_p (link s t) < fresh s"
    "next_p (link s t) < fresh s" "last_p (link s t) < fresh s"
  using ids_okD1 [OF assms] by auto

text \<open>Which reactions can sit on the promises of a link.\<close>

lemma reaction_on_then:
  assumes "inv s" "t < length (calls s)" "reaction_ok s (then_p (link s t)) r"
  shows "\<exists>cb. r = Catch cb (catch_p (link s t)) \<and>
           (cb = Rethrow (key (link s t)) (next_p (link s t)) \<or> cb = PreviousFailed)"
proof (cases r)
  case (Then cb d)
  with assms(3) obtain t2 t' where "t2 < length (calls s)" "t' < t2"
    "then_p (link s t) = next_p (link s t')"
    by auto
  then have "t' < length (calls s)" "then_p (link s t) = next_p (link s t')" by simp_all
  with next_p_link(1) [OF invD(1) [OF assms(1)] this(1) assms(2)] show ?thesis by simp
next
  case (Catch cb d)
  with assms(3) obtain t' where t': "t' < length (calls s)" "then_p (link s t) = then_p (link s t')"
    "d = catch_p (link s t')"
    "cb = Rethrow (key (link s t')) (next_p (link s t')) \<or> cb = PreviousFailed"
    by auto
  from ids_inj(1) [OF invD(1) [OF assms(1)] assms(2) t'(1) t'(2)] have "t = t'" .
  with t' Catch show ?thesis by simp
next
  case (Finally name self d)
  with assms(3) obtain t' where "t' < length (calls s)" "then_p (link s t) = catch_p (link s t')"
    by auto
  with ids_inj(4) [OF invD(1) [OF assms(1)] assms(2) this(1)] show ?thesis by simp
next
  case (Resolve d)
  with assms(3) obtain t' where "running s t' = Some (then_p (link s t))"
    by auto
  with invD(4) [OF assms(1)] assms(2) show ?thesis
    unfolding running_apart_def by blast
qed

lemma reaction_on_next:
  assumes "inv s" "t < length (calls s)" "reaction_ok s (next_p (link s t)) (Then cb d)"
  shows "waiting_on s t (Then cb d)"
proof -
  from assms(3) obtain t2 t' where t2: "t2 < length (calls s)" "cb = CallTask t2"
    "d = then_p (link s t2)" "next_p (link s t) = last_p (link s t2)"
    "Started t2 \<notin> set (trace s)" "\<not> is_settled (promises s (then_p (link s t2)))"
    and t': "t' < t2" "next_p (link s t) = next_p (link s t')" "key (link s t') = key (link s t2)"
    "\<forall>t1. t' < t1 \<and> t1 < t2 \<longrightarrow> key (link s t1) \<noteq> key (link s t2)"
    by auto
  from t'(1) t2(1) have "t' < length (calls s)" by simp
  from next_p_link(2) [OF invD(1) [OF assms(1)] assms(2) this t'(2)] have "t = t'" .
  with t2 t' show ?thesis
    unfolding waiting_on_def by auto
qed

lemma reaction_on_catch:
  assumes "inv s" "t < length (calls s)" "reaction_ok s (catch_p (link s t)) r"
  shows "r = Finally (key (link s t)) (next_p (link s t)) (finally_p (link s t))
         \<or> (next_p (link s t) = catch_p (link s t) \<and> waiting_on s t r)"
proof (cases r)
  case (Then cb d)
  with assms(3) obtain t2 t' where "t2 < length (calls s)" "t' < t2"
    "catch_p (link s t) = next_p (link s t')"
    by auto
  then have t': "t' < length (calls s)" "catch_p (link s t) = next_p (link s t')" by simp_all
  from next_p_link(3) [OF invD(1) [OF assms(1)] t'(1) assms(2)] t'(2) have "t' = t" by simp
  with t'(2) have n: "next_p (link s t) = catch_p (link s t)" by simp
  with assms(3) Then have "reaction_ok s (next_p (link s t)) (Then cb d)" by simp
  from reaction_on_next [OF assms(1,2) this] n Then show ?thesis by simp
next
  case (Catch cb d)
  with assms(3) obtain t' where "t' < length (calls s)" "catch_p (link s t) = then_p (link s t')"
    by auto
  with ids_inj(7) [OF invD(1) [OF assms(1)] assms(2) this(1)] show ?thesis by simp
next
  case (Finally name self d)
  with assms(3) obtain t' where t': "t' < length (calls s)" "catch_p (link s t) = catch_p (link s t')"
    "d = finally_p (link s t')" "name = key (link s t')" "self = next_p (link s t')"
    by auto
  from ids_inj(2) [OF invD(1) [OF assms(1)] assms(2) t'(1) t'(2)] have "t = t'" .
  with t' Finally show ?thesis by simp
next
  case (Resolve d)
  with assms(3) obtain t' where "running s t' = Some (catch_p (link s t))"
    by auto
  with invD(4) [OF assms(1)] assms(2) show ?thesis
    unfolding running_apart_def by blast
qed

lemma reaction_on_finally:
  assumes "inv s" "t < length (calls s)" "reaction_ok s (finally_p (link s t)) r"
  shows "next_p (link s t) = finally_p (link s t) \<and> waiting_on s t r"
proof (cases r)
  case (Then cb d)
  with assms(3) obtain t2 t' where "t2 < length (calls s)" "t' < t2"
    "finally_p (link s t) = next_p (link s t')"
    by auto
  then have t': "t' < length (calls s)" "finally_p (link s t) = next_p (link s t')" by simp_all
  from next_p_link(4) [OF invD(1) [OF assms(1)] t'(1) assms(2)] t'(2) have "t' = t" by simp
  with t'(2) have n: "next_p (link s t) = finally_p (link s t)" by simp
  with assms(3) Then have "reaction_ok s (next_p (link s t)) (Then cb d)" by simp
  from reaction_on_next [OF assms(1,2) this] n Then show ?thesis by simp
next
  case (Catch cb d)
  with assms(3) obtain t' where "t' < length (calls s)" "finally_p (link s t) = then_p (link s t')"
    by auto
  with ids_inj(8) [OF invD(1) [OF assms(1)] assms(2) this(1)] show ?thesis by simp
next
  case (Finally name self d)
  with assms(3) obtain t' where t': "t' < length (calls s)" "finally_p (link s t) = catch_p (link s t')"
    by auto
  with ids_inj(9) [OF invD(1) [OF assms(1)] assms(2) this(1)] show ?thesis by simp
next
  case (Resolve d)
  with assms(3) obtain t' where "running s t' = Some (finally_p (link s t))"
    by auto
  with invD(4) [OF assms(1)] assms(2) show ?thesis
    unfolding running_apart_def by blast
qed

text \<open>Which microtasks can aim at the promises of a link.\<close>

lemma job_for_then:
  assumes "inv s" "t < length (calls s)" "job_ok s r" "target r = then_p (link s t)"
  shows "(r = Then (CallTask t) (then_p (link s t)) \<and> is_settled (promises s (last_p (link s t)))
            \<and> Started t \<notin> set (trace s))
         \<or> (r = Resolve (then_p (link s t)) \<and> Ended t \<in> set (trace s))"
proof (cases r)
  case (Then cb d)
  with assms(3,4) obtain t' where t': "t' < length (calls s)" "cb = CallTask t'"
    "then_p (link s t) = then_p (link s t')" "is_settled (promises s (last_p (link s t')))"
    "Started t' \<notin> set (trace s)"
    by auto
  from ids_inj(1) [OF invD(1) [OF assms(1)] assms(2) t'(1) t'(3)] have "t = t'" .
  with t' Then assms(4) show ?thesis by simp
next
  case (Catch cb d)
  with assms(3,4) obtain t' where "t' < length (calls s)" "then_p (link s t) = catch_p (link s t')"
    by auto
  with ids_inj(4) [OF invD(1) [OF assms(1)] assms(2) this(1)] show ?thesis by simp
next
  case (Finally name self d)
  with assms(3,4) obtain t' where "t' < length (calls s)" "then_p (link s t) = finally_p (link s t')"
    by auto
  with ids_inj(5) [OF invD(1) [OF assms(1)] assms(2) this(1)] show ?thesis by simp
next
  case (Resolve d)
  with assms(3,4) obtain t' where t': "t' < length (calls s)" "then_p (link s t) = then_p (link s t')"
    "Ended t' \<in> set (trace s)"
    by auto
  from ids_inj(1) [OF invD(1) [OF assms(1)] assms(2) t'(1) t'(2)] have "t = t'" .
  with t' Resolve assms(4) show ?thesis by simp
qed

lemma job_for_catch:
  assumes "inv s" "t < length (calls s)" "job_ok s r" "target r = catch_p (link s t)"
  shows "is_settled (promises s (then_p (link s t)))"
proof (cases r)
  case (Then cb d)
  with assms(3,4) obtain t' where t': "t' < length (calls s)" "catch_p (link s t) = then_p (link s t')"
    by auto
  with ids_inj(7) [OF invD(1) [OF assms(1)] assms(2) this(1)] show ?thesis by simp
next
  case (Catch cb d)
  with assms(3,4) obtain t' where t': "t' < length (calls s)" "catch_p (link s t) = catch_p (link s t')"
    "is_settled (promises s (then_p (link s t')))"
    by auto
  from ids_inj(2) [OF invD(1) [OF assms(1)] assms(2) t'(1) t'(2)] have "t = t'" .
  with t' show ?thesis by simp
next
  case (Finally name self d)
  with assms(3,4) obtain t' where "t' < length (calls s)" "catch_p (link s t) = finally_p (link s t')"
    by auto
  with ids_inj(6) [OF invD(1) [OF assms(1)] assms(2) this(1)] show ?thesis by simp
next
  case (Resolve d)
  with assms(3,4) obtain t' where t': "t' < length (calls s)" "catch_p (link s t) = then_p (link s t')"
    by auto
  with ids_inj(7) [OF invD(1) [OF assms(1)] assms(2) this(1)] show ?thesis by simp
qed

lemma job_for_finally:
  assumes "inv s" "t < length (calls s)" "job_ok s r" "target r = finally_p (link s t)"
  shows "is_settled (promises s (catch_p (link s t)))"
proof (cases r)
  case (Then cb d)
  with assms(3,4) obtain t' where t': "t' < length (calls s)" "finally_p (link s t) = then_p (link s t')"
    by auto
  with ids_inj(8) [OF invD(1) [OF assms(1)] assms(2) this(1)] show ?thesis by simp
next
  case (Catch cb d)
  with assms(3,4) obtain t' where t': "t' < length (calls s)" "finally_p (link s t) = catch_p (link s t')"
    by auto
  with ids_inj(9) [OF invD(1) [OF assms(1)] assms(2) this(1)] show ?thesis by simp
next
  case (Finally name self d)
  with assms(3,4) obtain t' where t': "t' < length (calls s)" "finally_p (link s t) = finally_p (link s t')"
    "is_settled (promises s (catch_p (link s t')))"
    by auto
  from ids_inj(3) [OF invD(1) [OF assms(1)] assms(2) t'(1) t'(2)] have "t = t'" .
  with t' show ?thesis by simp
next
  case (Resolve d)
  with assms(3,4) obtain t' where t': "t' < length (calls s)" "finally_p (link s t) = then_p (link s t')"
    by auto
  with ids_inj(8) [OF invD(1) [OF assms(1)] assms(2) this(1)] show ?thesis by simp
qed

lemma settle_cases:
  "settle d x s = (case promises s d of Pending rs \<Rightarrow> settled_state d x rs s | Settled y \<Rightarrow> s)"
  by (simp add: settle_def settled_state_def split: promise.splits)

lemma settled_state_simps:
  "calls (settled_state d x rs s) = calls s"
  "trace (settled_state d x rs s) = trace s"
  "fresh (settled_state d x rs s) = fresh s"
  "running (settled_state d x rs s) = running s"
  "locks (settled_state d x rs s) = locks s"
  "jobs (settled_state d x rs s) = jobs s @ map (\<lambda>r. (r, x)) rs"
  "is_settled (promises (settled_state d x rs s) p) = (p = d \<or> is_settled (promises s p))"
  "p \<noteq> d \<Longrightarrow> promises (settled_state d x rs s) p = promises s p"
  "promises (settled_state d x rs s) d = Settled x"
  by (simp_all add: settled_state_def)

lemma past_settled_state: "past s t \<Longrightarrow> past (settled_state d x rs s) t"
  by (auto simp: past_def settled_state_simps)

lemma job_ok_settled_state:
  assumes "job_ok s r" "target r \<noteq> d"
  shows "job_ok (settled_state d x rs s) r"
proof (cases r)
  case (Then cb d')
  with assms show ?thesis
    by (auto simp: settled_state_simps intro: past_settled_state)
next
  case (Catch cb d')
  with assms show ?thesis
    by (auto simp: settled_state_simps)
next
  case (Finally name self d')
  with assms show ?thesis
    by (auto simp: settled_state_simps)
next
  case (Resolve d')
  with assms show ?thesis
    by (auto simp: settled_state_simps)
qed

lemma reaction_ok_settled_state:
  assumes "reaction_ok s p r" "\<And>cb d'. r = Then cb d' \<Longrightarrow> d' \<noteq> d"
  shows "reaction_ok (settled_state d x rs s) p r"
proof (cases r)
  case (Then cb d')
  with assms show ?thesis
    by (auto simp: settled_state_simps)
next
  case (Catch cb d')
  with assms show ?thesis
    by (auto simp: settled_state_simps)
next
  case (Finally name self d')
  with assms show ?thesis
    by (auto simp: settled_state_simps)
next
  case (Resolve d')
  with assms show ?thesis
    by (auto simp: settled_state_simps)
qed

lemma settle_core:
  assumes i: "inv s" and pend: "promises s d = Pending rs"
    and nojob: "\<forall>j \<in> set (jobs s). target (fst j) \<noteq> d"
    and new_ok: "\<And>r. r \<in> set rs \<Longrightarrow> job_ok (settled_state d x rs s) r"
    and new_apart: "\<And>r j. r \<in> set rs \<Longrightarrow> j \<in> set (jobs s) \<Longrightarrow> target (fst j) \<noteq> target r"
    and se: "settled_ok (settled_state d x rs s)"
    and ord: "order_ok (settled_state d x rs s)"
    and no_then: "\<And>p rs' cb d'. p \<noteq> d \<Longrightarrow> promises s p = Pending rs' \<Longrightarrow> Then cb d' \<in> set rs'
                    \<Longrightarrow> d' \<noteq> d"
  shows "inv (settled_state d x rs s)"
proof -
  let ?s = "settled_state d x rs s"
  note I = invD [OF i]
  note re = I(8) [unfolded reactions_ok_def, rule_format]
  have "ids_ok ?s" by (rule ids_ok_frame [OF I(1)]) (simp_all add: settled_state_simps)
  moreover have "trace_ok ?s" by (rule trace_ok_frame [OF I(2)]) (simp_all add: settled_state_simps)
  moreover have "running_ok ?s" by (rule running_ok_frame [OF I(3)]) (simp_all add: settled_state_simps)
  moreover have "running_apart ?s"
    by (rule running_apart_frame [OF I(4)]) (simp_all add: settled_state_simps)
  moreover have "jobs_ok ?s"
  proof -
    have old: "job_ok ?s (fst j)" if "j \<in> set (jobs s)" for j
    proof -
      from I(7) that have "job_ok s (fst j)" by (simp add: jobs_ok_def)
      moreover from nojob that have "target (fst j) \<noteq> d" by simp
      ultimately show ?thesis by (rule job_ok_settled_state)
    qed
    have d1: "distinct (map (\<lambda>j. target (fst j)) (jobs s))"
      using I(7) by (simp add: jobs_ok_def)
    have d2: "distinct (map target rs)"
      using re [OF pend] by simp
    have d3: "distinct (map (\<lambda>j. target (fst j)) (jobs s @ map (\<lambda>r. (r, x)) rs))"
      using d1 d2 new_apart by (auto simp: comp_def)
    show ?thesis
      unfolding jobs_ok_def using old new_ok d3 by (auto simp: settled_state_simps)
  qed
  moreover have "reactions_ok ?s"
    unfolding reactions_ok_def
  proof (intro allI impI)
    fix p rs'
    assume a: "promises ?s p = Pending rs'"
    then have pd: "p \<noteq> d" by (auto simp: settled_state_simps)
    with a have b: "promises s p = Pending rs'" by (simp add: settled_state_simps)
    have "reaction_ok ?s p r" if "r \<in> set rs'" for r
    proof (rule reaction_ok_settled_state)
      from re [OF b] that show "reaction_ok s p r" by simp
      fix cb d' assume "r = Then cb d'"
      with that no_then [OF pd b] show "d' \<noteq> d" by simp
    qed
    with re [OF b] show "distinct (map target rs') \<and> (\<forall>r\<in>set rs'. reaction_ok ?s p r)"
      by simp
  qed
  moreover have "locks_ok ?s"
  proof -
    note lo1 = I(9) [unfolded locks_ok_def, THEN conjunct1, rule_format]
    note lo2 = I(9) [unfolded locks_ok_def, THEN conjunct2, rule_format]
    have k2: "(\<exists>t<length (calls ?s). q = next_p (link ?s t) \<and> key (link ?s t) = name \<and>
              (\<forall>t1. t < t1 \<and> t1 < length (calls ?s) \<longrightarrow> key (link ?s t1) \<noteq> name)) \<and>
            (\<forall>rs cb d. promises ?s q = Pending rs \<longrightarrow> Then cb d \<notin> set rs)"
      if a: "locks ?s name = Some q" for name q
    proof -
      from a have b: "locks s name = Some q" by (simp add: settled_state_simps)
      have "Then cb d' \<notin> set rs'" if "promises ?s q = Pending rs'" for rs' cb d'
      proof -
        from that have "q \<noteq> d" by (auto simp: settled_state_simps)
        with that have "promises s q = Pending rs'" by (simp add: settled_state_simps)
        with lo1 [OF b] show ?thesis by blast
      qed
      with lo1 [OF b] show ?thesis by (simp add: settled_state_simps)
    qed
    have k1: "past ?s t1"
      if a: "locks ?s name = None" "t1 < length (calls ?s)" "key (link ?s t1) = name" for name t1
      using lo2 [of name t1] a by (simp add: settled_state_simps past_settled_state)
    show ?thesis
      unfolding locks_ok_def
      apply (rule conjI)
      subgoal by (intro allI impI) (rule k2)
      subgoal by (intro allI impI) (rule k1)
      done
  qed
  ultimately show ?thesis using se ord by (simp add: inv_def)
qed

lemma chain_past:
  assumes "inv s" "t2 < length (calls s)" "t < t2" "is_settled (promises s (then_p (link s t)))"
    "key (link s t2) = key (link s t)"
    "\<forall>t1. t < t1 \<and> t1 < t2 \<longrightarrow> key (link s t1) \<noteq> key (link s t2)"
    "t1 < t2" "key (link s t1) = key (link s t2)"
  shows "past s t1"
proof (cases t1 t rule: linorder_cases)
  case less
  from assms(2,3) have "t < length (calls s)" by simp
  with invD(6) [OF assms(1)] less assms(4,5,8) show ?thesis
    unfolding order_ok_def by metis
next
  case equal
  with assms(4) show ?thesis by (simp add: past_def)
next
  case greater
  with assms(6,7,8) show ?thesis by blast
qed

lemma waiting_job_ok:
  assumes "inv s" "t < length (calls s)" "is_settled (promises s (then_p (link s t)))"
    "waiting_on s t r" "d = next_p (link s t)"
  shows "job_ok (settled_state d x rs s) r"
proof -
  let ?s = "settled_state d x rs s"
  from assms(4) obtain t2 where t2: "t2 < length (calls s)" "r = Then (CallTask t2) (then_p (link s t2))"
    "t < t2" "last_p (link s t2) = next_p (link s t)" "key (link s t2) = key (link s t)"
    "Started t2 \<notin> set (trace s)" "\<not> is_settled (promises s (then_p (link s t2)))"
    "\<forall>t1. t < t1 \<and> t1 < t2 \<longrightarrow> key (link s t1) \<noteq> key (link s t2)"
    unfolding waiting_on_def by blast
  have ne: "then_p (link s t2) \<noteq> d"
    using next_p_link(1) [OF invD(1) [OF assms(1)] assms(2) t2(1)] assms(5) by simp
  have p: "past ?s t1" if "t1 < t2" "key (link s t1) = key (link s t2)" for t1
    using chain_past [OF assms(1) t2(1,3) assms(3) t2(5,8) that] by (rule past_settled_state)
  show ?thesis
    unfolding t2(2) using t2 ne p assms(5) by (auto simp: settled_state_simps)
qed

lemma waiting_apart:
  assumes "inv s" "t < length (calls s)" "waiting_on s t r" "\<not> is_settled (promises s (next_p (link s t)))"
    "j \<in> set (jobs s)"
  shows "target (fst j) \<noteq> target r"
proof
  assume e: "target (fst j) = target r"
  from assms(3) obtain t2 where t2: "t2 < length (calls s)" "r = Then (CallTask t2) (then_p (link s t2))"
    "last_p (link s t2) = next_p (link s t)" "Started t2 \<notin> set (trace s)"
    unfolding waiting_on_def by blast
  from assms(1,5) have "job_ok s (fst j)" by (simp add: inv_def jobs_ok_def)
  from job_for_then [OF assms(1) t2(1) this] e t2(2)
  have "(is_settled (promises s (last_p (link s t2))) \<and> Started t2 \<notin> set (trace s))
        \<or> Ended t2 \<in> set (trace s)"
    by auto
  then show False
  proof
    assume "is_settled (promises s (last_p (link s t2))) \<and> Started t2 \<notin> set (trace s)"
    with t2(3) assms(4) show False by simp
  next
    assume "Ended t2 \<in> set (trace s)"
    with invD(2) [OF assms(1)] t2(4) show False by (simp add: trace_ok_def)
  qed
qed

lemma then_reaction_target:
  assumes "inv s" "promises s p = Pending rs'" "Then cb d' \<in> set rs'"
  shows "\<exists>t2 < length (calls s). d' = then_p (link s t2) \<and> p = last_p (link s t2) \<and>
           Started t2 \<notin> set (trace s)"
proof -
  from invD(8) [OF assms(1)] assms(2,3) have "reaction_ok s p (Then cb d')"
    unfolding reactions_ok_def by blast
  then show ?thesis by auto
qed

lemma is_settled_Pending: "promises s d = Pending rs \<Longrightarrow> \<not> is_settled (promises s d)"
  by simp

lemma inv_settle_then:
  assumes i: "inv s" and t: "t < length (calls s)"
    and h: "Ended t \<in> set (trace s) \<or>
            (Started t \<notin> set (trace s) \<and> is_settled (promises s (last_p (link s t))) \<and>
             (\<forall>t1<t. key (link s t1) = key (link s t) \<longrightarrow> past s t1))"
    and nojob: "\<forall>j \<in> set (jobs s). target (fst j) \<noteq> then_p (link s t)"
  shows "inv (settle (then_p (link s t)) x s)"
proof (cases "promises s (then_p (link s t))")
  case (Settled y)
  with i show ?thesis by (simp add: settle_cases)
next
  case (Pending rs)
  let ?d = "then_p (link s t)"
  let ?s = "settled_state ?d x rs s"
  note I = invD [OF i]
  note inj = ids_inj [OF I(1) t]
  have "inv ?s"
  proof (rule settle_core [OF i Pending nojob])
    fix r assume r: "r \<in> set rs"
    with I(8) Pending have "reaction_ok s ?d r" unfolding reactions_ok_def by blast
    from reaction_on_then [OF i t this] obtain cb where cb: "r = Catch cb (catch_p (link s t))"
      "cb = Rethrow (key (link s t)) (next_p (link s t)) \<or> cb = PreviousFailed"
      by blast
    with t show "job_ok ?s r"
      by (auto simp: settled_state_simps)
    fix j assume j: "j \<in> set (jobs s)"
    show "target (fst j) \<noteq> target r"
    proof
      assume e: "target (fst j) = target r"
      from I(7) j have "job_ok s (fst j)" by (simp add: jobs_ok_def)
      from job_for_catch [OF i t this] e cb(1) have "is_settled (promises s ?d)" by simp
      with Pending show False by simp
    qed
  next
    show "settled_ok ?s"
      unfolding settled_ok_def
    proof (intro allI impI conjI)
      fix t' assume t': "t' < length (calls ?s)"
      then have t'': "t' < length (calls s)" by (simp add: settled_state_simps)
      note se = I(5) [unfolded settled_ok_def, rule_format, OF t'']
      {
        assume a: "is_settled (promises ?s (then_p (link ?s t'))) \<and> Started t' \<in> set (trace ?s)"
        show "Ended t' \<in> set (trace ?s)"
        proof (cases "then_p (link s t') = ?d")
          case True
          with inj(1) [OF t''] have "t = t'" by simp
          with a h show ?thesis by (auto simp: settled_state_simps)
        next
          case False
          with a se show ?thesis by (simp add: settled_state_simps)
        qed
      }
      {
        assume "is_settled (promises ?s (catch_p (link ?s t')))"
        with inj(4) [OF t''] se show "is_settled (promises ?s (then_p (link ?s t')))"
          by (auto simp: settled_state_simps)
      }
      {
        assume "is_settled (promises ?s (finally_p (link ?s t')))"
        with inj(5) [OF t''] se show "is_settled (promises ?s (catch_p (link ?s t')))"
          by (auto simp: settled_state_simps)
      }
    qed
  next
    show "order_ok ?s"
      unfolding order_ok_def
    proof (intro allI impI)
      fix t1 t2
      assume a: "t1 < t2 \<and> t2 < length (calls ?s) \<and> key (link ?s t1) = key (link ?s t2) \<and>
        (Started t2 \<in> set (trace ?s) \<or> is_settled (promises ?s (then_p (link ?s t2))))"
      then have b: "t1 < t2" "t2 < length (calls s)" "key (link s t1) = key (link s t2)"
        by (simp_all add: settled_state_simps)
      note ord = I(6) [unfolded order_ok_def, rule_format, of t1 t2]
      have "past s t1"
      proof (cases "Started t2 \<in> set (trace s) \<or> is_settled (promises s (then_p (link s t2)))")
        case True
        with ord b show ?thesis by blast
      next
        case False
        with a have "then_p (link s t2) = ?d" by (auto simp: settled_state_simps)
        with inj(1) [OF b(2)] have tt: "t = t2" by simp
        from h show ?thesis
        proof
          assume "Ended t \<in> set (trace s)"
          with I(2) have "Started t \<in> set (trace s)" by (simp add: trace_ok_def)
          with False tt show ?thesis by simp
        next
          assume "Started t \<notin> set (trace s) \<and> is_settled (promises s (last_p (link s t))) \<and>
             (\<forall>t1<t. key (link s t1) = key (link s t) \<longrightarrow> past s t1)"
          with b tt show ?thesis by blast
        qed
      qed
      then show "past ?s t1" by (rule past_settled_state)
    qed
  next
    fix p rs' cb d'
    assume a: "p \<noteq> ?d" "promises s p = Pending rs'" "Then cb d' \<in> set rs'"
    from then_reaction_target [OF i a(2,3)] obtain t2 where t2: "t2 < length (calls s)"
      "d' = then_p (link s t2)" "p = last_p (link s t2)" "Started t2 \<notin> set (trace s)"
      by blast
    show "d' \<noteq> ?d"
    proof
      assume "d' = ?d"
      with t2(2) inj(1) [OF t2(1)] have tt: "t = t2" by simp
      from h show False
      proof
        assume "Ended t \<in> set (trace s)"
        with I(2) have "Started t \<in> set (trace s)" by (simp add: trace_ok_def)
        with t2(4) tt show False by simp
      next
        assume "Started t \<notin> set (trace s) \<and> is_settled (promises s (last_p (link s t))) \<and>
             (\<forall>t1<t. key (link s t1) = key (link s t) \<longrightarrow> past s t1)"
        with t2(3) tt a(2) show False by simp
      qed
    qed
  qed
  with Pending show ?thesis by (simp add: settle_cases)
qed

lemma settled_ok_other:
  assumes i: "inv s" and t: "t < length (calls s)"
    and d: "d = catch_p (link s t) \<or> d = finally_p (link s t)"
    and h: "is_settled (promises s (then_p (link s t)))"
       "d = finally_p (link s t) \<Longrightarrow> is_settled (promises s (catch_p (link s t)))"
  shows "settled_ok (settled_state d x rs s)"
  unfolding settled_ok_def
proof (intro allI impI conjI)
  let ?s = "settled_state d x rs s"
  note I = invD [OF i]
  note inj = ids_inj [OF I(1) t]
  fix t' assume t': "t' < length (calls ?s)"
  then have t'': "t' < length (calls s)" by (simp add: settled_state_simps)
  note inj' = ids_inj [OF I(1) t'' t]
  note se = I(5) [unfolded settled_ok_def, rule_format, OF t'']
  have ne: "then_p (link s t') \<noteq> d"
    using d inj'(4,5) by auto
  {
    assume "is_settled (promises ?s (then_p (link ?s t'))) \<and> Started t' \<in> set (trace ?s)"
    with ne se show "Ended t' \<in> set (trace ?s)"
      by (simp add: settled_state_simps)
  }
  {
    assume a: "is_settled (promises ?s (catch_p (link ?s t')))"
    show "is_settled (promises ?s (then_p (link ?s t')))"
    proof (cases "catch_p (link s t') = d")
      case True
      with d inj'(2,6) have "t' = t" by auto
      with h(1) show ?thesis by (simp add: settled_state_simps)
    next
      case False
      with a se show ?thesis by (simp add: settled_state_simps)
    qed
  }
  {
    assume a: "is_settled (promises ?s (finally_p (link ?s t')))"
    show "is_settled (promises ?s (catch_p (link ?s t')))"
    proof (cases "finally_p (link s t') = d")
      case True
      with d inj'(3,9) have "t' = t \<and> d = finally_p (link s t)" by auto
      with h(2) show ?thesis by (simp add: settled_state_simps)
    next
      case False
      with a se show ?thesis by (simp add: settled_state_simps)
    qed
  }
qed

lemma order_ok_other:
  assumes i: "inv s" and t: "t < length (calls s)"
    and d: "d = catch_p (link s t) \<or> d = finally_p (link s t)"
  shows "order_ok (settled_state d x rs s)"
  unfolding order_ok_def
proof (intro allI impI)
  let ?s = "settled_state d x rs s"
  note I = invD [OF i]
  fix t1 t2
  assume a: "t1 < t2 \<and> t2 < length (calls ?s) \<and> key (link ?s t1) = key (link ?s t2) \<and>
    (Started t2 \<in> set (trace ?s) \<or> is_settled (promises ?s (then_p (link ?s t2))))"
  then have b: "t1 < t2" "t2 < length (calls s)" "key (link s t1) = key (link s t2)"
    by (simp_all add: settled_state_simps)
  have ne: "then_p (link s t2) \<noteq> d"
    using d ids_inj(4,5) [OF I(1) b(2) t] by auto
  with a have "Started t2 \<in> set (trace s) \<or> is_settled (promises s (then_p (link s t2)))"
    by (simp add: settled_state_simps)
  with I(6) [unfolded order_ok_def, rule_format, of t1 t2] b have "past s t1" by blast
  then show "past ?s t1" by (rule past_settled_state)
qed

lemma no_then_other:
  assumes i: "inv s" and t: "t < length (calls s)"
    and d: "d = catch_p (link s t) \<or> d = finally_p (link s t)"
    and a: "promises s p = Pending rs'" "Then cb d' \<in> set rs'"
  shows "d' \<noteq> d"
proof -
  from then_reaction_target [OF i a] obtain t2 where t2: "t2 < length (calls s)"
    "d' = then_p (link s t2)"
    by blast
  with d ids_inj(4,5) [OF invD(1) [OF i] t2(1) t] show ?thesis by auto
qed

lemma inv_settle_catch:
  assumes i: "inv s" and t: "t < length (calls s)"
    and h: "is_settled (promises s (then_p (link s t)))"
    and nojob: "\<forall>j \<in> set (jobs s). target (fst j) \<noteq> catch_p (link s t)"
  shows "inv (settle (catch_p (link s t)) x s)"
proof (cases "promises s (catch_p (link s t))")
  case (Settled y)
  with i show ?thesis by (simp add: settle_cases)
next
  case (Pending rs)
  let ?d = "catch_p (link s t)"
  let ?s = "settled_state ?d x rs s"
  note I = invD [OF i]
  have "inv ?s"
  proof (rule settle_core [OF i Pending nojob])
    fix r assume r: "r \<in> set rs"
    with I(8) Pending have "reaction_ok s ?d r" unfolding reactions_ok_def by blast
    note c = reaction_on_catch [OF i t this]
    from c show "job_ok ?s r"
    proof
      assume "r = Finally (key (link s t)) (next_p (link s t)) (finally_p (link s t))"
      with t show ?thesis by (auto simp: settled_state_simps)
    next
      assume "next_p (link s t) = ?d \<and> waiting_on s t r"
      with waiting_job_ok [OF i t h, of r ?d] show ?thesis by simp
    qed
    fix j assume j: "j \<in> set (jobs s)"
    from c show "target (fst j) \<noteq> target r"
    proof
      assume f: "r = Finally (key (link s t)) (next_p (link s t)) (finally_p (link s t))"
      show ?thesis
      proof
        assume e: "target (fst j) = target r"
        from I(7) j have "job_ok s (fst j)" by (simp add: jobs_ok_def)
        from job_for_finally [OF i t this] e f have "is_settled (promises s ?d)" by simp
        with Pending show False by simp
      qed
    next
      assume w: "next_p (link s t) = ?d \<and> waiting_on s t r"
      with Pending have "\<not> is_settled (promises s (next_p (link s t)))" by simp
      from waiting_apart [OF i t _ this j] w show ?thesis by simp
    qed
  next
    show "settled_ok ?s"
      using ids_okD1 [OF I(1) t] by (intro settled_ok_other [OF i t _ h]) simp_all
  next
    show "order_ok ?s"
      by (rule order_ok_other [OF i t]) simp
  next
    fix p rs' cb d'
    assume "p \<noteq> ?d" "promises s p = Pending rs'" "Then cb d' \<in> set rs'"
    from no_then_other [OF i t _ this(2,3)] show "d' \<noteq> ?d" by simp
  qed
  with Pending show ?thesis by (simp add: settle_cases)
qed

lemma inv_settle_finally:
  assumes i: "inv s" and t: "t < length (calls s)"
    and h: "is_settled (promises s (catch_p (link s t)))"
    and nojob: "\<forall>j \<in> set (jobs s). target (fst j) \<noteq> finally_p (link s t)"
  shows "inv (settle (finally_p (link s t)) x s)"
proof (cases "promises s (finally_p (link s t))")
  case (Settled y)
  with i show ?thesis by (simp add: settle_cases)
next
  case (Pending rs)
  let ?d = "finally_p (link s t)"
  let ?s = "settled_state ?d x rs s"
  note I = invD [OF i]
  from I(5) t h have h': "is_settled (promises s (then_p (link s t)))"
    by (simp add: settled_ok_def)
  have "inv ?s"
  proof (rule settle_core [OF i Pending nojob])
    fix r assume r: "r \<in> set rs"
    with I(8) Pending have "reaction_ok s ?d r" unfolding reactions_ok_def by blast
    note c = reaction_on_finally [OF i t this]
    from c waiting_job_ok [OF i t h', of r ?d] show "job_ok ?s r" by simp
    fix j assume j: "j \<in> set (jobs s)"
    from c Pending have "\<not> is_settled (promises s (next_p (link s t)))" by simp
    from waiting_apart [OF i t _ this j] c show "target (fst j) \<noteq> target r" by simp
  next
    show "settled_ok ?s"
      by (rule settled_ok_other [OF i t _ h']) (simp_all add: h)
  next
    show "order_ok ?s"
      by (rule order_ok_other [OF i t]) simp
  next
    fix p rs' cb d'
    assume "p \<noteq> ?d" "promises s p = Pending rs'" "Then cb d' \<in> set rs'"
    from no_then_other [OF i t _ this(2,3)] show "d' \<noteq> ?d" by simp
  qed
  with Pending show ?thesis by (simp add: settle_cases)
qed

lemma growsD:
  assumes "grows s s'"
  shows "length (calls s) \<le> length (calls s')"
    and "\<And>t. t < length (calls s) \<Longrightarrow> link s' t = link s t"
    and "set (trace s) \<subseteq> set (trace s')"
    and "\<And>q. q < fresh s \<Longrightarrow> is_settled (promises s q) \<Longrightarrow> is_settled (promises s' q)"
    and "\<And>t. t < length (calls s) \<Longrightarrow> is_settled (promises s' (then_p (link s t))) \<Longrightarrow>
           is_settled (promises s (then_p (link s t)))"
  using assms unfolding grows_def by blast+

lemma past_grows:
  assumes "ids_ok s" "grows s s'" "t < length (calls s)" "past s t"
  shows "past s' t"
proof -
  note g = growsD [OF assms(2)]
  from assms(4) show ?thesis
    unfolding past_def
  proof
    assume "Ended t \<in> set (trace s)"
    with g(3) show "Ended t \<in> set (trace s') \<or> is_settled (promises s' (then_p (link s' t)))"
      by blast
  next
    assume "is_settled (promises s (then_p (link s t)))"
    with g(4) [OF last_lt_fresh(1) [OF assms(1,3)]] g(2) [OF assms(3)]
    show "Ended t \<in> set (trace s') \<or> is_settled (promises s' (then_p (link s' t)))"
      by simp
  qed
qed

lemma job_ok_grows:
  assumes "ids_ok s" "grows s s'" "job_ok s r"
    "\<And>t d. r = Then (CallTask t) d \<Longrightarrow> Started t \<notin> set (trace s')"
  shows "job_ok s' r"
proof -
  note g = growsD [OF assms(2)]
  show ?thesis
  proof (cases r)
    case (Then cb d)
    with assms(3) obtain t where t: "t < length (calls s)" "cb = CallTask t" "d = then_p (link s t)"
      "is_settled (promises s (last_p (link s t)))" "\<not> is_settled (promises s (then_p (link s t)))"
      "\<forall>t1<t. key (link s t1) = key (link s t) \<longrightarrow> past s t1"
      by auto
    have a: "t < length (calls s')" using t(1) g(1) by simp
    have b: "is_settled (promises s' (last_p (link s' t)))"
      using g(4) [OF last_lt_fresh(5) [OF assms(1) t(1)] t(4)] g(2) [OF t(1)] by simp
    have c: "\<not> is_settled (promises s' (then_p (link s' t)))"
      using g(5) [OF t(1)] t(5) g(2) [OF t(1)] by auto
    have d: "past s' t1" if "t1 < t" "key (link s' t1) = key (link s' t)" for t1
    proof -
      from that t(1) have t1: "t1 < length (calls s)" by simp
      with that t(6) g(2) [OF t(1)] g(2) [OF t1] have "past s t1" by simp
      with assms(1,2) t1 show ?thesis by (rule past_grows)
    qed
    from assms(4) Then t(2) have e: "Started t \<notin> set (trace s')" by simp
    show ?thesis
      unfolding Then using a b c d e t(2,3) g(2) [OF t(1)] by auto
  next
    case (Catch cb d)
    with assms(3) obtain t where t: "t < length (calls s)" "d = catch_p (link s t)"
      "is_settled (promises s (then_p (link s t)))"
      "cb = Rethrow (key (link s t)) (next_p (link s t)) \<or> cb = PreviousFailed"
      by auto
    have a: "t < length (calls s')" using t(1) g(1) by simp
    have b: "is_settled (promises s' (then_p (link s' t)))"
      using g(4) [OF last_lt_fresh(1) [OF assms(1) t(1)] t(3)] g(2) [OF t(1)] by simp
    show ?thesis
      unfolding Catch using a b t(2,4) g(2) [OF t(1)] by auto
  next
    case (Finally name self d)
    with assms(3) obtain t where t: "t < length (calls s)" "d = finally_p (link s t)"
      "is_settled (promises s (catch_p (link s t)))" "name = key (link s t)" "self = next_p (link s t)"
      by auto
    have a: "t < length (calls s')" using t(1) g(1) by simp
    have b: "is_settled (promises s' (catch_p (link s' t)))"
      using g(4) [OF last_lt_fresh(2) [OF assms(1) t(1)] t(3)] g(2) [OF t(1)] by simp
    show ?thesis
      unfolding Finally using a b t(2,4,5) g(2) [OF t(1)] by auto
  next
    case (Resolve d)
    with assms(3) obtain t where t: "t < length (calls s)" "d = then_p (link s t)"
      "Ended t \<in> set (trace s)"
      by auto
    have a: "t < length (calls s')" using t(1) g(1) by simp
    show ?thesis
      unfolding Resolve using a t(2,3) g(2) [OF t(1)] g(3) by auto
  qed
qed

lemma reaction_ok_grows:
  assumes "ids_ok s" "grows s s'" "reaction_ok s p r"
    "\<And>t d. r = Then (CallTask t) d \<Longrightarrow> Started t \<notin> set (trace s')"
    "\<And>t d. r = Resolve d \<Longrightarrow> running s t = Some p \<Longrightarrow> running s' t = Some p"
  shows "reaction_ok s' p r"
proof -
  note g = growsD [OF assms(2)]
  show ?thesis
  proof (cases r)
    case (Then cb d)
    with assms(3) obtain t t' where t: "t < length (calls s)" "cb = CallTask t"
      "d = then_p (link s t)" "p = last_p (link s t)"
      "\<not> is_settled (promises s (then_p (link s t)))"
      and t': "t' < t" "p = next_p (link s t')" "key (link s t') = key (link s t)"
      "\<forall>t1. t' < t1 \<and> t1 < t \<longrightarrow> key (link s t1) \<noteq> key (link s t)"
      by auto
    have a: "t < length (calls s')" using t(1) g(1) by simp
    have c: "\<not> is_settled (promises s' (then_p (link s' t)))"
      using g(5) [OF t(1)] t(5) g(2) [OF t(1)] by auto
    from assms(4) Then t(2) have e: "Started t \<notin> set (trace s')" by simp
    from t'(1) t(1) have t'l: "t' < length (calls s)" by simp
    have f: "\<forall>t1. t' < t1 \<and> t1 < t \<longrightarrow> key (link s' t1) \<noteq> key (link s' t)"
    proof (intro allI impI)
      fix t1 assume b: "t' < t1 \<and> t1 < t"
      with t(1) have "t1 < length (calls s)" by simp
      with b t'(4) g(2) [OF t(1)] g(2) [OF this] show "key (link s' t1) \<noteq> key (link s' t)"
        by simp
    qed
    have "\<exists>t'<t. p = next_p (link s' t') \<and> key (link s' t') = key (link s' t) \<and>
             (\<forall>t1. t' < t1 \<and> t1 < t \<longrightarrow> key (link s' t1) \<noteq> key (link s' t))"
      using t' f g(2) [OF t(1)] g(2) [OF t'l] by auto
    then show ?thesis
      unfolding Then using a c e t(2,3,4) g(2) [OF t(1)] by auto
  next
    case (Catch cb d)
    with assms(3) obtain t where t: "t < length (calls s)" "p = then_p (link s t)"
      "d = catch_p (link s t)"
      "cb = Rethrow (key (link s t)) (next_p (link s t)) \<or> cb = PreviousFailed"
      by auto
    have a: "t < length (calls s')" using t(1) g(1) by simp
    show ?thesis
      unfolding Catch using a t(2,3,4) g(2) [OF t(1)] by auto
  next
    case (Finally name self d)
    with assms(3) obtain t where t: "t < length (calls s)" "p = catch_p (link s t)"
      "d = finally_p (link s t)" "name = key (link s t)" "self = next_p (link s t)"
      by auto
    have a: "t < length (calls s')" using t(1) g(1) by simp
    show ?thesis
      unfolding Finally using a t(2,3,4,5) g(2) [OF t(1)] by auto
  next
    case (Resolve d)
    with assms(3) obtain t where t: "t < length (calls s)" "running s t = Some p"
      "d = then_p (link s t)"
      by auto
    have a: "t < length (calls s')" using t(1) g(1) by simp
    from assms(5) [OF Resolve t(2)] have "running s' t = Some p" .
    then show ?thesis
      unfolding Resolve using a t(3) g(2) [OF t(1)] by auto
  qed
qed

lemma job_target_old:
  assumes "ids_ok s" "job_ok s r"
  shows "target r < fresh s"
proof (cases r)
  case (Then cb d)
  with assms(2) obtain t where "t < length (calls s)" "d = then_p (link s t)" by auto
  with last_lt_fresh(1) [OF assms(1) this(1)] Then show ?thesis by simp
next
  case (Catch cb d)
  with assms(2) obtain t where "t < length (calls s)" "d = catch_p (link s t)" by auto
  with last_lt_fresh(2) [OF assms(1) this(1)] Catch show ?thesis by simp
next
  case (Finally name self d)
  with assms(2) obtain t where "t < length (calls s)" "d = finally_p (link s t)" by auto
  with last_lt_fresh(3) [OF assms(1) this(1)] Finally show ?thesis by simp
next
  case (Resolve d)
  with assms(2) obtain t where "t < length (calls s)" "d = then_p (link s t)" by auto
  with last_lt_fresh(1) [OF assms(1) this(1)] Resolve show ?thesis by simp
qed

lemma reaction_target_old:
  assumes "ids_ok s" "reaction_ok s p r"
  shows "target r < fresh s"
proof (cases r)
  case (Then cb d)
  with assms(2) obtain t where "t < length (calls s)" "d = then_p (link s t)" by auto
  with last_lt_fresh(1) [OF assms(1) this(1)] Then show ?thesis by simp
next
  case (Catch cb d)
  with assms(2) obtain t where "t < length (calls s)" "d = catch_p (link s t)" by auto
  with last_lt_fresh(2) [OF assms(1) this(1)] Catch show ?thesis by simp
next
  case (Finally name self d)
  with assms(2) obtain t where "t < length (calls s)" "d = finally_p (link s t)" by auto
  with last_lt_fresh(3) [OF assms(1) this(1)] Finally show ?thesis by simp
next
  case (Resolve d)
  with assms(2) obtain t where "t < length (calls s)" "d = then_p (link s t)" by auto
  with last_lt_fresh(1) [OF assms(1) this(1)] Resolve show ?thesis by simp
qed

lemma run_job_start: "run_job (Then (CallTask t) d, Fulfil v) s = started_state t d s"
  by (simp add: resolve_with_def start_task_def new_promise_def subscribe_def started_state_def)

lemma started_state_simps:
  "calls (started_state t d s) = calls s"
  "trace (started_state t d s) = trace s @ [Started t]"
  "fresh (started_state t d s) = Suc (fresh s)"
  "running (started_state t d s) = (running s)(t \<mapsto> fresh s)"
  "locks (started_state t d s) = locks s"
  "jobs (started_state t d s) = jobs s"
  "promises (started_state t d s) = (promises s)(fresh s := Pending [Resolve d])"
  by (simp_all add: started_state_def)

lemma inv_start:
  assumes i: "inv s" and j: "job_ok s (Then (CallTask t) d)"
    and nojob: "\<forall>j \<in> set (jobs s). target (fst j) \<noteq> d"
  shows "inv (started_state t d s)"
proof -
  let ?s = "started_state t d s"
  note I = invD [OF i]
  note S = started_state_simps
  from j have t: "t < length (calls s)" and d: "d = then_p (link s t)"
    and la: "is_settled (promises s (last_p (link s t)))"
    and ns: "Started t \<notin> set (trace s)"
    and pe: "\<not> is_settled (promises s (then_p (link s t)))"
    and pa: "\<forall>t1<t. key (link s t1) = key (link s t) \<longrightarrow> past s t1"
    by auto
  from I(2) ns have ne: "Ended t \<notin> set (trace s)"
    by (auto simp: trace_ok_def)
  have old: "q < fresh s \<Longrightarrow> promises ?s q = promises s q" for q
    by (simp add: S)
  have g: "grows s ?s"
    unfolding grows_def
    using last_lt_fresh(1) [OF I(1)] by (auto simp: S)
  have lk: "link ?s t' = link s t'" for t'
    by (simp add: S)
  have "ids_ok ?s"
    using I(1) unfolding ids_ok_def by (auto simp: S less_Suc_eq)
  moreover have "trace_ok ?s"
    using I(2) t unfolding trace_ok_def by (auto simp: S)
  moreover have "running_ok ?s"
    unfolding running_ok_def
  proof (intro allI impI)
    fix t' pt assume a: "running ?s t' = Some pt"
    show "t' < length (calls ?s) \<and> pt < fresh ?s \<and> Started t' \<in> set (trace ?s) \<and>
          Ended t' \<notin> set (trace ?s)"
    proof (cases "t' = t")
      case True
      with a t ne show ?thesis by (simp add: S)
    next
      case False
      with a have "running s t' = Some pt" by (simp add: S)
      with I(3) show ?thesis
        unfolding running_ok_def by (auto simp: S less_Suc_eq)
    qed
  qed
  moreover have "running_apart ?s"
  proof -
    note ru = I(3) [unfolded running_ok_def, rule_format]
    note ra1 = I(4) [unfolded running_apart_def, THEN conjunct1, rule_format]
    note ra2 = I(4) [unfolded running_apart_def, THEN conjunct2, rule_format]
    have a: "pt \<noteq> then_p (link ?s t') \<and> pt \<noteq> catch_p (link ?s t') \<and> pt \<noteq> finally_p (link ?s t')"
      if "running ?s t0 = Some pt \<and> t' < length (calls ?s)" for t0 pt t'
    proof (cases "t0 = t")
      case True
      with that have "pt = fresh s" "t' < length (calls s)" by (simp_all add: S)
      with last_lt_fresh(1-3) [OF I(1) this(2)] show ?thesis by (simp add: S)
    next
      case False
      with that have "running s t0 = Some pt \<and> t' < length (calls s)" by (simp add: S)
      from ra1 [OF this] show ?thesis by (simp add: S)
    qed
    have b: "t1 = t0" if "running ?s t0 = Some pt \<and> running ?s t1 = Some pt" for t0 t1 pt
    proof -
      have c: "running s t2 = Some q \<Longrightarrow> q \<noteq> fresh s" for t2 q
        using ru [of t2 q] by auto
      from that c ra2 [of t0 pt t1] show ?thesis
        by (auto simp: S split: if_splits)
    qed
    show ?thesis
      unfolding running_apart_def
      apply (rule conjI)
      subgoal by (intro allI impI) (rule a)
      subgoal by (intro allI impI) (rule b)
      done
  qed
  moreover have "settled_ok ?s"
    unfolding settled_ok_def
  proof (intro allI impI)
    fix t' assume "t' < length (calls ?s)"
    then have t': "t' < length (calls s)" by (simp add: S)
    note se = I(5) [unfolded settled_ok_def, rule_format, OF t']
    note o = old [OF last_lt_fresh(1) [OF I(1) t']] old [OF last_lt_fresh(2) [OF I(1) t']]
      old [OF last_lt_fresh(3) [OF I(1) t']]
    show "(is_settled (promises ?s (then_p (link ?s t'))) \<and> Started t' \<in> set (trace ?s)
             \<longrightarrow> Ended t' \<in> set (trace ?s)) \<and>
          (is_settled (promises ?s (catch_p (link ?s t'))) \<longrightarrow>
             is_settled (promises ?s (then_p (link ?s t')))) \<and>
          (is_settled (promises ?s (finally_p (link ?s t'))) \<longrightarrow>
             is_settled (promises ?s (catch_p (link ?s t'))))"
      unfolding lk o using se pe by (auto simp: S)
  qed
  moreover have "order_ok ?s"
    unfolding order_ok_def
  proof (intro allI impI)
    fix t1 t2
    assume a: "t1 < t2 \<and> t2 < length (calls ?s) \<and> key (link ?s t1) = key (link ?s t2) \<and>
      (Started t2 \<in> set (trace ?s) \<or> is_settled (promises ?s (then_p (link ?s t2))))"
    then have b: "t1 < t2" "t2 < length (calls s)" "key (link s t1) = key (link s t2)"
      by (simp_all add: S)
    then have t1: "t1 < length (calls s)" by simp
    have "past s t1"
    proof (cases "t2 = t")
      case True
      with pa b show ?thesis by simp
    next
      case False
      with a old [OF last_lt_fresh(1) [OF I(1) b(2)]]
      have "Started t2 \<in> set (trace s) \<or> is_settled (promises s (then_p (link s t2)))"
        by (auto simp: S)
      with I(6) [unfolded order_ok_def, rule_format, of t1 t2] b show ?thesis by blast
    qed
    with I(1) g t1 show "past ?s t1" by (rule past_grows)
  qed
  moreover have "jobs_ok ?s"
  proof -
    have "job_ok ?s (fst j')" if "j' \<in> set (jobs s)" for j'
    proof (rule job_ok_grows [OF I(1) g])
      from I(7) that show jo: "job_ok s (fst j')" by (simp add: jobs_ok_def)
      fix t2 d2 assume e: "fst j' = Then (CallTask t2) d2"
      with jo have "d2 = then_p (link s t2)" "t2 < length (calls s)" "Started t2 \<notin> set (trace s)"
        by auto
      moreover from nojob that e d have "d2 \<noteq> then_p (link s t)" by auto
      ultimately show "Started t2 \<notin> set (trace ?s)" by (auto simp: S)
    qed
    with I(7) show ?thesis
      unfolding jobs_ok_def by (simp add: S)
  qed
  moreover have "reactions_ok ?s"
    unfolding reactions_ok_def
  proof (intro allI impI)
    fix p rs assume a: "promises ?s p = Pending rs"
    show "distinct (map target rs) \<and> (\<forall>r\<in>set rs. reaction_ok ?s p r)"
    proof (cases "p = fresh s")
      case True
      with a have "rs = [Resolve d]" by (simp add: S)
      with True t d show ?thesis by (auto simp: S)
    next
      case False
      with a have b: "promises s p = Pending rs" by (simp add: S)
      note re = I(8) [unfolded reactions_ok_def, rule_format, OF b]
      have "reaction_ok ?s p r" if "r \<in> set rs" for r
      proof (rule reaction_ok_grows [OF I(1) g])
        from re that show ro: "reaction_ok s p r" by simp
        {
          fix t2 d2 assume e: "r = Then (CallTask t2) d2"
          with ro have "p = last_p (link s t2)" "Started t2 \<notin> set (trace s)" by auto
          with b la show "Started t2 \<notin> set (trace ?s)" by (auto simp: S)
        }
        {
          fix t2 d2 assume e: "r = Resolve d2" "running s t2 = Some p"
          with I(3) have "Started t2 \<in> set (trace s)" by (simp add: running_ok_def)
          with ns e(2) show "running ?s t2 = Some p" by (auto simp: S)
        }
      qed
      with re show ?thesis by simp
    qed
  qed
  moreover have "locks_ok ?s"
  proof -
    note lo1 = I(9) [unfolded locks_ok_def, THEN conjunct1, rule_format]
    note lo2 = I(9) [unfolded locks_ok_def, THEN conjunct2, rule_format]
    have k2: "(\<exists>t<length (calls ?s). q = next_p (link ?s t) \<and> key (link ?s t) = name \<and>
              (\<forall>t1. t < t1 \<and> t1 < length (calls ?s) \<longrightarrow> key (link ?s t1) \<noteq> name)) \<and>
            (\<forall>rs cb d. promises ?s q = Pending rs \<longrightarrow> Then cb d \<notin> set rs)"
      if a: "locks ?s name = Some q" for name q
    proof -
      from a have b: "locks s name = Some q" by (simp add: S)
      from lo1 [OF b] obtain t0 where "t0 < length (calls s)" "q = next_p (link s t0)" by blast
      with last_lt_fresh(4) [OF I(1) this(1)] have "promises ?s q = promises s q"
        by (simp add: S)
      with lo1 [OF b] show ?thesis by (simp add: S)
    qed
    have k1: "past ?s t1"
      if a: "locks ?s name = None" "t1 < length (calls ?s)" "key (link ?s t1) = name" for name t1
    proof -
      from a have "t1 < length (calls s)" by (simp add: S)
      moreover from lo2 [of name t1] a have "past s t1" by (simp add: S)
      ultimately show ?thesis using I(1) g by (intro past_grows [of s ?s t1])
    qed
    show ?thesis
      unfolding locks_ok_def
      apply (rule conjI)
      subgoal by (intro allI impI) (rule k2)
      subgoal by (intro allI impI) (rule k1)
      done
  qed
  ultimately show ?thesis by (simp add: inv_def)
qed

lemma running_not_link:
  assumes "inv s" "running s t = Some pt" "t' < length (calls s)"
  shows "pt \<noteq> then_p (link s t')" "pt \<noteq> catch_p (link s t')" "pt \<noteq> finally_p (link s t')"
    "pt \<noteq> next_p (link s t')"
proof -
  from invD(4) [OF assms(1)] assms(2,3)
  show a: "pt \<noteq> then_p (link s t')" "pt \<noteq> catch_p (link s t')" "pt \<noteq> finally_p (link s t')"
    unfolding running_apart_def by blast+
  with next_p_cases [OF invD(1) [OF assms(1)] assms(3)] show "pt \<noteq> next_p (link s t')"
    by auto
qed

lemma reaction_on_running:
  assumes "inv s" "running s t = Some pt" "reaction_ok s pt r"
  shows "r = Resolve (then_p (link s t))"
proof (cases r)
  case (Then cb d)
  with assms(3) obtain t2 t' where "t2 < length (calls s)" "t' < t2" "pt = next_p (link s t')"
    by auto
  then have "t' < length (calls s)" "pt = next_p (link s t')" by simp_all
  with running_not_link(4) [OF assms(1,2) this(1)] show ?thesis by simp
next
  case (Catch cb d)
  with assms(3) obtain t' where "t' < length (calls s)" "pt = then_p (link s t')" by auto
  with running_not_link(1) [OF assms(1,2) this(1)] show ?thesis by simp
next
  case (Finally name self d)
  with assms(3) obtain t' where "t' < length (calls s)" "pt = catch_p (link s t')" by auto
  with running_not_link(2) [OF assms(1,2) this(1)] show ?thesis by simp
next
  case (Resolve d)
  with assms(3) obtain t' where t': "running s t' = Some pt" "d = then_p (link s t')" by auto
  with invD(4) [OF assms(1)] assms(2) have "t' = t"
    unfolding running_apart_def by blast
  with t' Resolve show ?thesis by simp
qed

lemma completed_state_simps:
  "calls (completed_state t pt z x rs s) = calls s"
  "trace (completed_state t pt z x rs s) = trace s @ [Ended t]"
  "fresh (completed_state t pt z x rs s) = fresh s"
  "running (completed_state t pt z x rs s) = (running s)(t := None)"
  "locks (completed_state t pt z x rs s) = locks s"
  "jobs (completed_state t pt z x rs s) = jobs s @ map (\<lambda>r. (r, x)) rs"
  "promises (completed_state t pt z x rs s) = (promises s)(pt := Settled z)"
  by (simp_all add: completed_state_def)

lemma step_complete:
  assumes "running s t = Some pt"
  shows "\<exists>z rs. step (Complete t x) s = completed_state t pt z x rs s \<and>
           (promises s pt = Pending rs \<or> (promises s pt = Settled z \<and> rs = []))"
proof (cases "promises s pt")
  case (Pending rs)
  then have "step (Complete t x) s = completed_state t pt x x rs s"
    using assms by (simp add: settle_def completed_state_def)
  with Pending show ?thesis by blast
next
  case (Settled z)
  then have "(promises s)(pt := Settled z) = promises s" by auto
  with Settled have "step (Complete t x) s = completed_state t pt z x [] s"
    using assms by (simp add: settle_def completed_state_def)
  with Settled show ?thesis by blast
qed

lemma inv_completed:
  assumes i: "inv s" and r: "running s t = Some pt"
    and c: "promises s pt = Pending rs \<or> (promises s pt = Settled z \<and> rs = [])"
  shows "inv (completed_state t pt z x rs s)"
proof -
  let ?s = "completed_state t pt z x rs s"
  note I = invD [OF i]
  note S = completed_state_simps
  note ru = I(3) [unfolded running_ok_def, rule_format]
  from ru [OF r] have t: "t < length (calls s)" and pt: "pt < fresh s"
    and st: "Started t \<in> set (trace s)" and en: "Ended t \<notin> set (trace s)"
    by simp_all
  note nl = running_not_link [OF i r]
  have lk: "link ?s t' = link s t'" for t'
    by (simp add: S)
  have same: "t' < length (calls s) \<Longrightarrow>
      promises ?s (then_p (link s t')) = promises s (then_p (link s t')) \<and>
      promises ?s (catch_p (link s t')) = promises s (catch_p (link s t')) \<and>
      promises ?s (finally_p (link s t')) = promises s (finally_p (link s t'))" for t'
    using nl [of t'] by (simp add: S)
  have g: "grows s ?s"
    unfolding grows_def using same by (auto simp: S)
  have rs: "r' \<in> set rs \<Longrightarrow> r' = Resolve (then_p (link s t))" for r'
  proof -
    assume a: "r' \<in> set rs"
    with c have p: "promises s pt = Pending rs" by auto
    with I(8) a have "reaction_ok s pt r'" unfolding reactions_ok_def by blast
    from reaction_on_running [OF i r this] show ?thesis .
  qed
  have "ids_ok ?s" by (rule ids_ok_frame [OF I(1)]) (simp_all add: S)
  moreover have "trace_ok ?s"
    using I(2) st unfolding trace_ok_def by (auto simp: S)
  moreover have "running_ok ?s"
    unfolding running_ok_def
  proof (intro allI impI)
    fix t' q assume a: "running ?s t' = Some q"
    then have "t' \<noteq> t" "running s t' = Some q" by (auto simp: S split: if_splits)
    with ru [OF this(2)]
    show "t' < length (calls ?s) \<and> q < fresh ?s \<and> Started t' \<in> set (trace ?s) \<and>
          Ended t' \<notin> set (trace ?s)"
      by (simp add: S)
  qed
  moreover have "running_apart ?s"
    using I(4) unfolding running_apart_def by (auto simp: S split: if_splits)
  moreover have "settled_ok ?s"
    unfolding settled_ok_def
  proof (intro allI impI)
    fix t' assume "t' < length (calls ?s)"
    then have t': "t' < length (calls s)" by (simp add: S)
    note se = I(5) [unfolded settled_ok_def, rule_format, OF t']
    show "(is_settled (promises ?s (then_p (link ?s t'))) \<and> Started t' \<in> set (trace ?s)
             \<longrightarrow> Ended t' \<in> set (trace ?s)) \<and>
          (is_settled (promises ?s (catch_p (link ?s t'))) \<longrightarrow>
             is_settled (promises ?s (then_p (link ?s t')))) \<and>
          (is_settled (promises ?s (finally_p (link ?s t'))) \<longrightarrow>
             is_settled (promises ?s (catch_p (link ?s t'))))"
      unfolding lk using same [OF t'] se by (auto simp: S)
  qed
  moreover have "order_ok ?s"
    unfolding order_ok_def
  proof (intro allI impI)
    fix t1 t2
    assume a: "t1 < t2 \<and> t2 < length (calls ?s) \<and> key (link ?s t1) = key (link ?s t2) \<and>
      (Started t2 \<in> set (trace ?s) \<or> is_settled (promises ?s (then_p (link ?s t2))))"
    then have b: "t1 < t2" "t2 < length (calls s)" "key (link s t1) = key (link s t2)"
      by (simp_all add: S)
    then have t1: "t1 < length (calls s)" by simp
    from a same [OF b(2)]
    have "Started t2 \<in> set (trace s) \<or> is_settled (promises s (then_p (link s t2)))"
      by (auto simp: S)
    with I(6) [unfolded order_ok_def, rule_format, of t1 t2] b have "past s t1" by blast
    with I(1) g t1 show "past ?s t1" by (rule past_grows)
  qed
  moreover have "jobs_ok ?s"
  proof -
    have old: "job_ok ?s (fst j')" if "j' \<in> set (jobs s)" for j'
    proof (rule job_ok_grows [OF I(1) g])
      from I(7) that show jo: "job_ok s (fst j')" by (simp add: jobs_ok_def)
      fix t2 d2 assume e: "fst j' = Then (CallTask t2) d2"
      with jo have "Started t2 \<notin> set (trace s)" by auto
      then show "Started t2 \<notin> set (trace ?s)" by (auto simp: S)
    qed
    have new: "job_ok ?s r'" if "r' \<in> set rs" for r'
      using rs [OF that] t by (auto simp: S)
    have apart: "target (fst j') \<noteq> target r'" if "r' \<in> set rs" "j' \<in> set (jobs s)" for r' j'
    proof
      assume e: "target (fst j') = target r'"
      from I(7) that(2) have "job_ok s (fst j')" by (simp add: jobs_ok_def)
      from job_for_then [OF i t this] e rs [OF that(1)]
      have "Started t \<notin> set (trace s) \<or> Ended t \<in> set (trace s)" by auto
      with st en show False by simp
    qed
    have d1: "distinct (map (\<lambda>j. target (fst j)) (jobs s))"
      using I(7) by (simp add: jobs_ok_def)
    have d2: "distinct (map target rs)"
    proof (cases "promises s pt")
      case (Pending rs')
      with c I(8) show ?thesis unfolding reactions_ok_def by auto
    next
      case (Settled y)
      with c show ?thesis by auto
    qed
    have d3: "distinct (map (\<lambda>j. target (fst j)) (jobs s @ map (\<lambda>r. (r, x)) rs))"
      using d1 d2 apart by (auto simp: comp_def)
    show ?thesis
      unfolding jobs_ok_def using old new d3 by (auto simp: S)
  qed
  moreover have "reactions_ok ?s"
    unfolding reactions_ok_def
  proof (intro allI impI)
    fix p rs' assume a: "promises ?s p = Pending rs'"
    then have pp: "p \<noteq> pt" by (auto simp: S)
    with a have b: "promises s p = Pending rs'" by (simp add: S)
    note re = I(8) [unfolded reactions_ok_def, rule_format, OF b]
    have "reaction_ok ?s p r'" if "r' \<in> set rs'" for r'
    proof (rule reaction_ok_grows [OF I(1) g])
      from re that show ro: "reaction_ok s p r'" by simp
      {
        fix t2 d2 assume e: "r' = Then (CallTask t2) d2"
        with ro have "Started t2 \<notin> set (trace s)" by auto
        then show "Started t2 \<notin> set (trace ?s)" by (auto simp: S)
      }
      {
        fix t2 d2 assume e: "r' = Resolve d2" "running s t2 = Some p"
        with r pp show "running ?s t2 = Some p" by (auto simp: S)
      }
    qed
    with re show "distinct (map target rs') \<and> (\<forall>r\<in>set rs'. reaction_ok ?s p r)" by simp
  qed
  moreover have "locks_ok ?s"
  proof -
    note lo1 = I(9) [unfolded locks_ok_def, THEN conjunct1, rule_format]
    note lo2 = I(9) [unfolded locks_ok_def, THEN conjunct2, rule_format]
    have k2: "(\<exists>t<length (calls ?s). q = next_p (link ?s t) \<and> key (link ?s t) = name \<and>
              (\<forall>t1. t < t1 \<and> t1 < length (calls ?s) \<longrightarrow> key (link ?s t1) \<noteq> name)) \<and>
            (\<forall>rs cb d. promises ?s q = Pending rs \<longrightarrow> Then cb d \<notin> set rs)"
      if a: "locks ?s name = Some q" for name q
    proof -
      from a have b: "locks s name = Some q" by (simp add: S)
      from lo1 [OF b] obtain t0 where "t0 < length (calls s)" "q = next_p (link s t0)" by blast
      with nl(4) [OF this(1)] have "promises ?s q = promises s q"
        by (simp add: S)
      with lo1 [OF b] show ?thesis by (simp add: S)
    qed
    have k1: "past ?s t1"
      if a: "locks ?s name = None" "t1 < length (calls ?s)" "key (link ?s t1) = name" for name t1
    proof -
      from a have "t1 < length (calls s)" by (simp add: S)
      moreover from lo2 [of name t1] a have "past s t1" by (simp add: S)
      ultimately show ?thesis using I(1) g by (intro past_grows [of s ?s t1])
    qed
    show ?thesis
      unfolding locks_ok_def
      apply (rule conjI)
      subgoal by (intro allI impI) (rule k2)
      subgoal by (intro allI impI) (rule k1)
      done
  qed
  ultimately show ?thesis by (simp add: inv_def)
qed

lemma inv_complete:
  assumes "inv s"
  shows "inv (step (Complete t x) s)"
proof (cases "running s t")
  case None
  with assms show ?thesis by simp
next
  case (Some pt)
  from step_complete [OF Some, of x] obtain z rs where
    "step (Complete t x) s = completed_state t pt z x rs s"
    "promises s pt = Pending rs \<or> (promises s pt = Settled z \<and> rs = [])"
    by blast
  with inv_completed [OF assms Some this(2)] show ?thesis by simp
qed

lemma cleanup_simps:
  "calls (cleanup name self s) = calls s"
  "promises (cleanup name self s) = promises s"
  "jobs (cleanup name self s) = jobs s"
  "trace (cleanup name self s) = trace s"
  "running (cleanup name self s) = running s"
  "fresh (cleanup name self s) = fresh s"
  by (simp_all add: cleanup_def)

lemma inv_run_job:
  assumes i: "inv s" and j: "job_ok s r" and nojob: "\<forall>j \<in> set (jobs s). target (fst j) \<noteq> target r"
  shows "inv (run_job (r, x) s)"
proof (cases r)
  case (Then cb d)
  with j obtain t where t: "t < length (calls s)" "cb = CallTask t" "d = then_p (link s t)"
    "is_settled (promises s (last_p (link s t)))" "Started t \<notin> set (trace s)"
    "\<forall>t1<t. key (link s t1) = key (link s t) \<longrightarrow> past s t1"
    by auto
  show ?thesis
  proof (cases x)
    case (Fulfil v)
    from j Then t(2) have "job_ok s (Then (CallTask t) d)" by simp
    from inv_start [OF i this] nojob Then show ?thesis
      unfolding Then t(2) Fulfil run_job_start by simp
  next
    case (Reject e)
    from nojob Then t(3) have "\<forall>j \<in> set (jobs s). target (fst j) \<noteq> then_p (link s t)" by simp
    from inv_settle_then [OF i t(1) _ this, of "Reject e"] t(4,5,6) show ?thesis
      unfolding Then Reject t(3) by simp
  qed
next
  case (Catch cb d)
  with j obtain t where t: "t < length (calls s)" "d = catch_p (link s t)"
    "is_settled (promises s (then_p (link s t)))"
    "cb = Rethrow (key (link s t)) (next_p (link s t)) \<or> cb = PreviousFailed"
    by auto
  from nojob Catch t(2) have nj: "\<forall>j \<in> set (jobs s). target (fst j) \<noteq> catch_p (link s t)" by simp
  show ?thesis
  proof (cases x)
    case (Fulfil v)
    from inv_settle_catch [OF i t(1,3) nj, of "Fulfil v"] show ?thesis
      unfolding Catch Fulfil t(2) by simp
  next
    case (Reject e)
    from t(4) show ?thesis
    proof
      assume cb: "cb = Rethrow (key (link s t)) (next_p (link s t))"
      let ?c = "cleanup (key (link s t)) (next_p (link s t)) s"
      have ic: "inv ?c" by (rule inv_cleanup [OF i t(1,3)])
      have "inv (settle (catch_p (link ?c t)) (Reject e) ?c)"
        by (rule inv_settle_catch [OF ic]) (simp_all add: cleanup_simps t nj)
      then show ?thesis
        unfolding Catch Reject t(2) cb by (simp add: resolve_with_def cleanup_simps)
    next
      assume cb: "cb = PreviousFailed"
      from inv_settle_catch [OF i t(1,3) nj] show ?thesis
        unfolding Catch Reject t(2) cb by (simp add: resolve_with_def)
    qed
  qed
next
  case (Finally name self d)
  with j obtain t where t: "t < length (calls s)" "d = finally_p (link s t)"
    "is_settled (promises s (catch_p (link s t)))" "name = key (link s t)" "self = next_p (link s t)"
    by auto
  from nojob Finally t(2) have nj: "\<forall>j \<in> set (jobs s). target (fst j) \<noteq> finally_p (link s t)"
    by simp
  from invD(5) [OF i] t(1,3) have th: "is_settled (promises s (then_p (link s t)))"
    by (simp add: settled_ok_def)
  let ?c = "cleanup (key (link s t)) (next_p (link s t)) s"
  have ic: "inv ?c" by (rule inv_cleanup [OF i t(1) th])
  have "inv (settle (finally_p (link ?c t)) x ?c)"
    by (rule inv_settle_finally [OF ic]) (simp_all add: cleanup_simps t nj)
  then show ?thesis
    unfolding Finally t(2,4,5) by (simp add: cleanup_simps)
next
  case (Resolve d)
  with j obtain t where t: "t < length (calls s)" "d = then_p (link s t)" "Ended t \<in> set (trace s)"
    by auto
  from nojob Resolve t(2) have "\<forall>j \<in> set (jobs s). target (fst j) \<noteq> then_p (link s t)" by simp
  from inv_settle_then [OF i t(1) _ this, of x] t(3) show ?thesis
    unfolding Resolve t(2) by simp
qed

lemma inv_tick:
  assumes "inv s"
  shows "inv (step Tick s)"
proof (cases "jobs s")
  case Nil
  with assms show ?thesis by simp
next
  case (Cons j js)
  note p = inv_pop [OF assms Cons]
  obtain r x where j: "j = (r, x)" by (cases j)
  from inv_run_job [OF p(1), of r x] p(2,3) j have "inv (run_job (r, x) (s\<lparr>jobs := js\<rparr>))"
    by simp
  with Cons j show ?thesis by simp
qed

lemma called_state_simps:
  "calls (called_state s name b lst cb nxt P J) =
     calls s @ [\<lparr>key = name, last_p = lst, then_p = b, catch_p = Suc b,
                 finally_p = Suc (Suc b), next_p = nxt\<rparr>]"
  "trace (called_state s name b lst cb nxt P J) = trace s"
  "fresh (called_state s name b lst cb nxt P J) = Suc (Suc (Suc b))"
  "running (called_state s name b lst cb nxt P J) = running s"
  "locks (called_state s name b lst cb nxt P J) = (locks s)(name \<mapsto> nxt)"
  "jobs (called_state s name b lst cb nxt P J) = jobs s @ J"
  "promises (called_state s name b lst cb nxt P J) q =
     (if q = Suc b then Pending [Finally name nxt (Suc (Suc b))]
      else if q = Suc (Suc b) then Pending []
      else if q = b then Pending [Catch cb (Suc b)]
      else P q)"
  by (simp_all add: called_state_def)

lemma step_call_none:
  assumes "locks s name = None"
  shows "step (Call v name) s =
     called_state s name (Suc (fresh s)) (fresh s) (variant_cb v name (Suc (fresh s)))
       (variant_next v (Suc (fresh s))) ((promises s)(fresh s := Settled (Fulfil Null)))
       [(Then (CallTask (length (calls s))) (Suc (fresh s)), Fulfil Null)]"
  using assms
  by (cases v)
     (simp_all add: queue_def queue_part1_def promise_then_def promise_catch_def promise_finally_def
        new_promise_def subscribe_def called_state_def variant_cb_def variant_next_def Let_def)

lemma step_call_pending:
  assumes "locks s name = Some p" "promises s p = Pending rs" "p < fresh s"
  shows "step (Call v name) s =
     called_state s name (fresh s) p (variant_cb v name (fresh s)) (variant_next v (fresh s))
       ((promises s)(p := Pending (rs @ [Then (CallTask (length (calls s))) (fresh s)]))) []"
  using assms
  by (cases v)
     (auto simp: queue_def queue_part1_def promise_then_def promise_catch_def promise_finally_def
        new_promise_def subscribe_def called_state_def variant_cb_def variant_next_def Let_def
        fun_upd_twist)

lemma step_call_settled:
  assumes "locks s name = Some p" "promises s p = Settled y" "p < fresh s"
  shows "step (Call v name) s =
     called_state s name (fresh s) p (variant_cb v name (fresh s)) (variant_next v (fresh s))
       (promises s) [(Then (CallTask (length (calls s))) (fresh s), y)]"
  using assms
  by (cases v)
     (auto simp: queue_def queue_part1_def promise_then_def promise_catch_def promise_finally_def
        new_promise_def subscribe_def called_state_def variant_cb_def variant_next_def Let_def)

lemma lock_settled_past:
  assumes i: "inv s" and l: "locks s name = Some p" and se: "is_settled (promises s p)"
    and t1: "t1 < length (calls s)" "key (link s t1) = name"
  shows "past s t1"
proof -
  note I = invD [OF i]
  from I(9) l obtain t0 where t0: "t0 < length (calls s)" "p = next_p (link s t0)"
    "key (link s t0) = name" "\<forall>t1. t0 < t1 \<and> t1 < length (calls s) \<longrightarrow> key (link s t1) \<noteq> name"
    unfolding locks_ok_def by blast
  note sk = I(5) [unfolded settled_ok_def, rule_format, OF t0(1)]
  from next_p_cases [OF I(1) t0(1)] se t0(2) sk
  have th: "is_settled (promises s (then_p (link s t0)))" by auto
  show ?thesis
  proof (cases t1 t0 rule: linorder_cases)
    case less
    with I(6) t0(1,3) t1(2) th show ?thesis
      unfolding order_ok_def by metis
  next
    case equal
    with th show ?thesis by (simp add: past_def)
  next
    case greater
    with t0(4) t1 show ?thesis by blast
  qed
qed

lemma link_called_old:
  "t < length (calls s) \<Longrightarrow> link (called_state s name b lst cb nxt P J) t = link s t"
  by (simp add: called_state_simps nth_append)

lemma link_called_new:
  "link (called_state s name b lst cb nxt P J) (length (calls s)) =
     \<lparr>key = name, last_p = lst, then_p = b, catch_p = Suc b, finally_p = Suc (Suc b), next_p = nxt\<rparr>"
  by (simp add: called_state_simps)

lemma length_called:
  "length (calls (called_state s name b lst cb nxt P J)) = Suc (length (calls s))"
  by (simp add: called_state_simps)

lemma inv_called:
  assumes i: "inv s"
    and b: "fresh s \<le> b" and l: "lst < b"
    and nx: "(nxt = Suc b \<and> cb = Rethrow name nxt) \<or> (nxt = Suc (Suc b) \<and> cb = PreviousFailed)"
    and P: "\<And>q. q \<noteq> lst \<Longrightarrow> P q = promises s q"
    and c: "(locks s name = None \<and> lst = fresh s \<and> P lst = Settled y \<and>
              J = [(Then (CallTask (length (calls s))) b, y)])
          \<or> (locks s name = Some lst \<and>
              (\<exists>rs. promises s lst = Pending rs \<and>
                 P lst = Pending (rs @ [Then (CallTask (length (calls s))) b])) \<and> J = [])
          \<or> (locks s name = Some lst \<and> promises s lst = Settled y \<and> P lst = Settled y \<and>
              J = [(Then (CallTask (length (calls s))) b, y)])"
  shows "inv (called_state s name b lst cb nxt P J)"
proof -
  let ?s = "called_state s name b lst cb nxt P J"
  let ?n = "length (calls s)"
  note I = invD [OF i]
  note S = called_state_simps
  note lo1 = I(9) [unfolded locks_ok_def, THEN conjunct1, rule_format]
  note lo2 = I(9) [unfolded locks_ok_def, THEN conjunct2, rule_format]
  note len = length_called
  note lk_old = link_called_old
  note lk_new = link_called_new
  have tr: "trace ?s = trace s"
    by (simp add: S)
  have fr: "fresh ?s = Suc (Suc (Suc b))"
    by (simp add: S)
  have locked: "\<exists>t0 < ?n. lst = next_p (link s t0) \<and> key (link s t0) = name \<and>
        (\<forall>t1. t0 < t1 \<and> t1 < ?n \<longrightarrow> key (link s t1) \<noteq> name) \<and> lst < fresh s"
    if "locks s name = Some lst"
  proof -
    from lo1 [OF that] obtain t0 where t0: "t0 < ?n" "lst = next_p (link s t0)"
      "key (link s t0) = name" "\<forall>t1. t0 < t1 \<and> t1 < ?n \<longrightarrow> key (link s t1) \<noteq> name"
      by blast
    with last_lt_fresh(4) [OF I(1) t0(1)] show ?thesis by auto
  qed
  have old_promise: "promises ?s q = P q" if "q < fresh s" for q
    using that b by (simp add: S)
  have settled_same: "is_settled (promises ?s q) = is_settled (promises s q)" if "q < fresh s" for q
  proof (cases "q = lst")
    case False
    with old_promise [OF that] P show ?thesis by simp
  next
    case True
    from c show ?thesis
    proof (elim disjE conjE exE)
      assume "lst = fresh s"
      with True that show ?thesis by simp
    next
      fix rs assume "promises s lst = Pending rs"
        "P lst = Pending (rs @ [Then (CallTask (length (calls s))) b])"
      with True old_promise [OF that] show ?thesis by simp
    next
      assume "promises s lst = Settled y" "P lst = Settled y"
      with True old_promise [OF that] show ?thesis by simp
    qed
  qed
  have pending_new: "promises ?s b = Pending [Catch cb (Suc b)]"
    "promises ?s (Suc b) = Pending [Finally name nxt (Suc (Suc b))]"
    "promises ?s (Suc (Suc b)) = Pending []"
    by (simp_all add: S)
  have g: "grows s ?s"
    unfolding grows_def
    using lk_old settled_same last_lt_fresh(1) [OF I(1)] by (auto simp: S)
  have not_started: "Started ?n \<notin> set (trace s)"
    using I(2) unfolding trace_ok_def by auto
  have "ids_ok ?s"
    unfolding ids_ok_def
  proof (rule conjI; intro allI impI)
    fix t assume "t < length (calls ?s)"
    then have "t < ?n \<or> t = ?n" by (auto simp: len)
    then show "last_p (link ?s t) < then_p (link ?s t) \<and> then_p (link ?s t) < catch_p (link ?s t) \<and>
        catch_p (link ?s t) < finally_p (link ?s t) \<and> finally_p (link ?s t) < fresh ?s \<and>
        (next_p (link ?s t) = catch_p (link ?s t) \<or> next_p (link ?s t) = finally_p (link ?s t))"
    proof
      assume t: "t < ?n"
      with ids_okD1 [OF I(1) t] b show ?thesis by (auto simp: lk_old fr)
    next
      assume "t = ?n"
      with l nx show ?thesis by (auto simp: lk_new fr)
    qed
  next
    fix t1 t2 assume a: "t1 < t2 \<and> t2 < length (calls ?s)"
    then have "t2 < ?n \<or> t2 = ?n" by (auto simp: len)
    then show "finally_p (link ?s t1) < then_p (link ?s t2)"
    proof
      assume t: "t2 < ?n"
      with a ids_okD2 [OF I(1), of t1 t2] show ?thesis by (simp add: lk_old)
    next
      assume t: "t2 = ?n"
      with a last_lt_fresh(3) [OF I(1), of t1] b show ?thesis by (simp add: lk_old lk_new)
    qed
  qed
  moreover have "trace_ok ?s"
    using I(2) unfolding trace_ok_def by (auto simp: S)
  moreover have "running_ok ?s"
    using I(3) b unfolding running_ok_def by (fastforce simp: S)
  moreover have "running_apart ?s"
  proof -
    note ru = I(3) [unfolded running_ok_def, rule_format]
    note ra1 = I(4) [unfolded running_apart_def, THEN conjunct1, rule_format]
    note ra2 = I(4) [unfolded running_apart_def, THEN conjunct2, rule_format]
    have a: "pt \<noteq> then_p (link ?s t') \<and> pt \<noteq> catch_p (link ?s t') \<and> pt \<noteq> finally_p (link ?s t')"
      if "running ?s t0 = Some pt \<and> t' < length (calls ?s)" for t0 pt t'
    proof -
      from that have r: "running s t0 = Some pt" by (simp add: S)
      from that have "t' < ?n \<or> t' = ?n" by (auto simp: len)
      then show ?thesis
      proof
        assume "t' < ?n"
        with ra1 [of t0 pt t'] r show ?thesis by (simp add: lk_old)
      next
        assume "t' = ?n"
        with ru [OF r] b show ?thesis by (simp add: lk_new)
      qed
    qed
    have c: "t1 = t0" if "running ?s t0 = Some pt \<and> running ?s t1 = Some pt" for t0 t1 pt
      using that ra2 [of t0 pt t1] by (simp add: S)
    show ?thesis
      unfolding running_apart_def
      apply (rule conjI)
      subgoal by (intro allI impI) (rule a)
      subgoal by (intro allI impI) (rule c)
      done
  qed
  moreover have "settled_ok ?s"
    unfolding settled_ok_def
  proof (intro allI impI)
    fix t assume "t < length (calls ?s)"
    then have "t < ?n \<or> t = ?n" by (auto simp: len)
    then show "(is_settled (promises ?s (then_p (link ?s t))) \<and> Started t \<in> set (trace ?s)
             \<longrightarrow> Ended t \<in> set (trace ?s)) \<and>
          (is_settled (promises ?s (catch_p (link ?s t))) \<longrightarrow>
             is_settled (promises ?s (then_p (link ?s t)))) \<and>
          (is_settled (promises ?s (finally_p (link ?s t))) \<longrightarrow>
             is_settled (promises ?s (catch_p (link ?s t))))"
    proof
      assume t: "t < ?n"
      note se = I(5) [unfolded settled_ok_def, rule_format, OF t]
      note f = last_lt_fresh(1-3) [OF I(1) t]
      show ?thesis
        unfolding lk_old [OF t] settled_same [OF f(1)] settled_same [OF f(2)] settled_same [OF f(3)] tr
        using se by simp
    next
      assume "t = ?n"
      then show ?thesis by (simp add: lk_new pending_new)
    qed
  qed
  moreover have "order_ok ?s"
    unfolding order_ok_def
  proof (intro allI impI)
    fix t1 t2
    assume a: "t1 < t2 \<and> t2 < length (calls ?s) \<and> key (link ?s t1) = key (link ?s t2) \<and>
      (Started t2 \<in> set (trace ?s) \<or> is_settled (promises ?s (then_p (link ?s t2))))"
    have t2: "t2 < ?n"
    proof (rule ccontr)
      assume "\<not> t2 < ?n"
      with a have "t2 = ?n" by (auto simp: len)
      with a not_started show False by (simp add: lk_new pending_new tr)
    qed
    with a have t1: "t1 < ?n" by simp
    from a t2 t1 have "key (link s t1) = key (link s t2)" by (simp add: lk_old)
    moreover from a t2 settled_same [OF last_lt_fresh(1) [OF I(1) t2]]
    have "Started t2 \<in> set (trace s) \<or> is_settled (promises s (then_p (link s t2)))"
      by (simp add: lk_old tr)
    ultimately have "past s t1"
      using I(6) [unfolded order_ok_def, rule_format, of t1 t2] a t2 by blast
    with I(1) g t1 show "past ?s t1" by (rule past_grows)
  qed
  moreover have "jobs_ok ?s"
  proof -
    have old: "job_ok ?s (fst j')" if "j' \<in> set (jobs s)" for j'
    proof (rule job_ok_grows [OF I(1) g])
      from I(7) that show jo: "job_ok s (fst j')" by (simp add: jobs_ok_def)
      fix t2 d2 assume e: "fst j' = Then (CallTask t2) d2"
      with jo show "Started t2 \<notin> set (trace ?s)" by (auto simp: tr)
    qed
    have new: "job_ok ?s (Then (CallTask ?n) b)"
      if pst: "\<And>t1. t1 < ?n \<Longrightarrow> key (link s t1) = name \<Longrightarrow> past s t1"
        and ls: "is_settled (promises ?s lst)"
    proof -
      have "past ?s t1" if "t1 < ?n" "key (link ?s t1) = key (link ?s ?n)" for t1
      proof -
        from that have "key (link s t1) = name" by (simp add: lk_old lk_new)
        from pst [OF that(1) this] show ?thesis
          using I(1) g that(1) by (intro past_grows [of s ?s t1])
      qed
      then have h: "\<forall>t1 < ?n. key (link ?s t1) = key (link ?s ?n) \<longrightarrow> past ?s t1"
        by blast
      show ?thesis
        unfolding job_ok.simps
        apply (rule exI [of _ ?n])
        using not_started ls h by (simp add: len lk_new pending_new tr)
    qed
    have d1: "distinct (map (\<lambda>j. target (fst j)) (jobs s))"
      using I(7) by (simp add: jobs_ok_def)
    have d2: "target (fst j') \<noteq> b" if "j' \<in> set (jobs s)" for j'
    proof -
      from I(7) that have "job_ok s (fst j')" by (simp add: jobs_ok_def)
      from job_target_old [OF I(1) this] b show ?thesis by simp
    qed
    from c show ?thesis
    proof (elim disjE conjE exE)
      assume a: "locks s name = None" "lst = fresh s" "P lst = Settled y"
        "J = [(Then (CallTask ?n) b, y)]"
      have "is_settled (promises ?s lst)"
        using a l by (simp add: S)
      with new lo2 [OF a(1)] have "job_ok ?s (Then (CallTask ?n) b)" by blast
      with old d1 d2 a(4) show ?thesis
        unfolding jobs_ok_def by (auto simp: S)
    next
      fix rs assume "J = []"
      with old d1 show ?thesis
        unfolding jobs_ok_def by (auto simp: S)
    next
      assume a: "locks s name = Some lst" "promises s lst = Settled y" "P lst = Settled y"
        "J = [(Then (CallTask ?n) b, y)]"
      have "is_settled (promises ?s lst)"
        using a l by (simp add: S)
      moreover have "past s t1" if "t1 < ?n" "key (link s t1) = name" for t1
        using lock_settled_past [OF i a(1) _ that] a(2) by simp
      ultimately have "job_ok ?s (Then (CallTask ?n) b)" using new by blast
      with old d1 d2 a(4) show ?thesis
        unfolding jobs_ok_def by (auto simp: S)
    qed
  qed
  moreover have "reactions_ok ?s"
    unfolding reactions_ok_def
  proof (intro allI impI)
    fix p rs assume a: "promises ?s p = Pending rs"
    have mono: "reaction_ok ?s p r" if "reaction_ok s p r" for r
    proof (rule reaction_ok_grows [OF I(1) g that])
      fix t2 d2 assume "r = Then (CallTask t2) d2"
      with that show "Started t2 \<notin> set (trace ?s)" by (auto simp: tr)
    next
      fix t2 d2 assume "running s t2 = Some p"
      then show "running ?s t2 = Some p" by (simp add: S)
    qed
    consider "p = b" | "p = Suc b" | "p = Suc (Suc b)" | "p = lst" "p < b"
      | "p \<noteq> b" "p \<noteq> Suc b" "p \<noteq> Suc (Suc b)" "p \<noteq> lst"
      using l by fastforce
    then show "distinct (map target rs) \<and> (\<forall>r\<in>set rs. reaction_ok ?s p r)"
    proof cases
      case 1
      with a have "rs = [Catch cb (Suc b)]" by (simp add: S)
      moreover have "reaction_ok ?s b (Catch cb (Suc b))"
        unfolding reaction_ok.simps
        apply (rule exI [of _ ?n])
        apply (simp add: len lk_new)
        using nx by auto
      ultimately show ?thesis using 1 by simp
    next
      case 2
      with a have "rs = [Finally name nxt (Suc (Suc b))]" by (simp add: S)
      moreover have "reaction_ok ?s (Suc b) (Finally name nxt (Suc (Suc b)))"
        unfolding reaction_ok.simps
        by (rule exI [of _ ?n]) (simp add: len lk_new)
      ultimately show ?thesis using 2 by simp
    next
      case 3
      with a have "rs = []" by (simp add: S)
      then show ?thesis by simp
    next
      case 4
      with a have pl: "P lst = Pending rs" by (simp add: S)
      with c obtain rs0 where r0: "locks s name = Some lst" "promises s lst = Pending rs0"
        "rs = rs0 @ [Then (CallTask ?n) b]"
        by auto
      note re = I(8) [unfolded reactions_ok_def, rule_format, OF r0(2)]
      from locked [OF r0(1)] obtain t0 where t0: "t0 < ?n" "lst = next_p (link s t0)"
        "key (link s t0) = name" "\<forall>t1. t0 < t1 \<and> t1 < ?n \<longrightarrow> key (link s t1) \<noteq> name"
        by blast
      have "\<exists>t' < ?n. lst = next_p (link ?s t') \<and> key (link ?s t') = key (link ?s ?n) \<and>
           (\<forall>t1. t' < t1 \<and> t1 < ?n \<longrightarrow> key (link ?s t1) \<noteq> key (link ?s ?n))"
        apply (rule exI [of _ t0])
        using t0 by (simp add: lk_new lk_old)
      note h = this
      have "reaction_ok ?s lst (Then (CallTask ?n) b)"
        unfolding reaction_ok.simps
        apply (rule exI [of _ ?n])
        using not_started h by (simp add: len lk_new pending_new tr)
      moreover have "target r \<noteq> b" if "r \<in> set rs0" for r
      proof -
        from re that have "reaction_ok s lst r" by simp
        from reaction_target_old [OF I(1) this] b show ?thesis by simp
      qed
      ultimately show ?thesis
        using re mono 4(1) r0(3) by auto
    next
      case 5
      with a P have "promises s p = Pending rs" by (simp add: S)
      note re = I(8) [unfolded reactions_ok_def, rule_format, OF this]
      with mono show ?thesis by simp
    qed
  qed
  moreover have "locks_ok ?s"
  proof -
    have k2: "(\<exists>t<length (calls ?s). q = next_p (link ?s t) \<and> key (link ?s t) = name' \<and>
              (\<forall>t1. t < t1 \<and> t1 < length (calls ?s) \<longrightarrow> key (link ?s t1) \<noteq> name')) \<and>
            (\<forall>rs cb d. promises ?s q = Pending rs \<longrightarrow> Then cb d \<notin> set rs)"
      if a: "locks ?s name' = Some q" for name' q
    proof (cases "name' = name")
      case True
      with a have q: "q = nxt" by (simp add: S)
      have "\<forall>rs cb d. promises ?s q = Pending rs \<longrightarrow> Then cb d \<notin> set rs"
        using nx q by (auto simp: S)
      moreover have "\<exists>t<length (calls ?s). q = next_p (link ?s t) \<and> key (link ?s t) = name' \<and>
              (\<forall>t1. t < t1 \<and> t1 < length (calls ?s) \<longrightarrow> key (link ?s t1) \<noteq> name')"
        using q True by (intro exI [of _ ?n]) (auto simp: len lk_new)
      ultimately show ?thesis by blast
    next
      case False
      with a have b': "locks s name' = Some q" by (simp add: S)
      from lo1 [OF b'] obtain t0 where t0: "t0 < ?n" "q = next_p (link s t0)"
        "key (link s t0) = name'" "\<forall>t1. t0 < t1 \<and> t1 < ?n \<longrightarrow> key (link s t1) \<noteq> name'"
        and nt: "\<forall>rs cb d. promises s q = Pending rs \<longrightarrow> Then cb d \<notin> set rs"
        by blast
      have ql: "q \<noteq> lst"
      proof
        assume e: "q = lst"
        from c have "locks s name = Some lst"
          using last_lt_fresh(4) [OF I(1) t0(1)] t0(2) e by auto
        from locked [OF this] obtain t0' where "t0' < ?n" "lst = next_p (link s t0')"
          "key (link s t0') = name"
          by blast
        with next_p_link(2) [OF I(1) t0(1) this(1)] t0(2,3) e False show False by auto
      qed
      have "promises ?s q = promises s q"
        using last_lt_fresh(4) [OF I(1) t0(1)] t0(2) b ql P by (simp add: S)
      with nt have "\<forall>rs cb d. promises ?s q = Pending rs \<longrightarrow> Then cb d \<notin> set rs" by simp
      moreover have "\<forall>t1. t0 < t1 \<and> t1 < length (calls ?s) \<longrightarrow> key (link ?s t1) \<noteq> name'"
      proof (intro allI impI)
        fix t1 assume "t0 < t1 \<and> t1 < length (calls ?s)"
        then have "(t0 < t1 \<and> t1 < ?n) \<or> t1 = ?n" by (auto simp: len)
        with t0(4) False show "key (link ?s t1) \<noteq> name'"
          by (auto simp: lk_old lk_new)
      qed
      ultimately show ?thesis
        using t0(1,2,3) by (auto simp: len lk_old intro!: exI [of _ t0])
    qed
    have k1: "past ?s t1"
      if a: "locks ?s name' = None" "t1 < length (calls ?s)" "key (link ?s t1) = name'" for name' t1
    proof -
      from a(1) have nn: "name' \<noteq> name" "locks s name' = None"
        by (auto simp: S split: if_splits)
      have "t1 < ?n"
      proof (rule ccontr)
        assume "\<not> t1 < ?n"
        with a(2) have "t1 = ?n" by (simp add: len)
        with a(3) nn show False by (simp add: lk_new)
      qed
      moreover from this a(3) lo2 [OF nn(2), of t1] have "past s t1" by (simp add: lk_old)
      ultimately show ?thesis using I(1) g by (intro past_grows [of s ?s t1])
    qed
    show ?thesis
      unfolding locks_ok_def
      apply (rule conjI)
      subgoal by (intro allI impI) (rule k2)
      subgoal by (intro allI impI) (rule k1)
      done
  qed
  ultimately show ?thesis by (simp add: inv_def)
qed

lemma variant_shape:
  "(variant_next v b = Suc b \<and> variant_cb v name b = Rethrow name (variant_next v b)) \<or>
   (variant_next v b = Suc (Suc b) \<and> variant_cb v name b = PreviousFailed)"
  by (cases v) (simp_all add: variant_next_def variant_cb_def)

lemma lock_lt_fresh:
  assumes "inv s" "locks s name = Some p"
  shows "p < fresh s"
proof -
  note I = invD [OF assms(1)]
  from I(9) assms(2) obtain t where "t < length (calls s)" "p = next_p (link s t)"
    unfolding locks_ok_def by blast
  with last_lt_fresh(4) [OF I(1)] show ?thesis by simp
qed

lemma inv_call:
  assumes i: "inv s"
  shows "inv (step (Call v name) s)"
proof (cases "locks s name")
  case None
  show ?thesis
    unfolding step_call_none [OF None]
    by (rule inv_called [OF i _ _ variant_shape, where y = "Fulfil Null"]) (simp_all add: None)
next
  case (Some p)
  note lt = lock_lt_fresh [OF i Some]
  show ?thesis
  proof (cases "promises s p")
    case (Pending rs)
    show ?thesis
      unfolding step_call_pending [OF Some Pending lt]
      by (rule inv_called [OF i _ _ variant_shape]) (simp_all add: Some Pending lt)
  next
    case (Settled y)
    show ?thesis
      unfolding step_call_settled [OF Some Settled lt]
      by (rule inv_called [OF i _ _ variant_shape, where y = y]) (simp_all add: Some Settled lt)
  qed
qed

lemma inv_step: "inv s \<Longrightarrow> inv (step e s)"
proof (cases e)
  case (Call v name)
  assume "inv s"
  then show ?thesis unfolding Call by (rule inv_call)
next
  case (Complete t x)
  assume "inv s"
  then show ?thesis unfolding Complete by (rule inv_complete)
next
  case Tick
  assume "inv s"
  then show ?thesis unfolding Tick by (rule inv_tick)
qed

lemma inv_run_from: "inv s \<Longrightarrow> inv (run evs s)"
proof (induction evs arbitrary: s)
  case Nil
  then show ?case by (simp add: run_def)
next
  case (Cons e evs)
  from Cons.prems have "inv (step e s)" by (rule inv_step)
  then have "inv (run evs (step e s))" by (rule Cons.IH)
  then show ?case by (simp add: run_def)
qed

lemma inv_run: "inv (run evs init)"
  by (rule inv_run_from [OF inv_init])

lemma settle_trace: "trace (settle p x s) = trace s"
  by (simp add: settle_def split: promise.splits)

lemma settle_calls: "calls (settle p x s) = calls s"
  by (simp add: settle_def split: promise.splits)

lemma run_job_trace:
  assumes "job_ok s r"
  shows "calls (run_job (r, x) s) = calls s \<and>
     (trace (run_job (r, x) s) = trace s \<or>
      (\<exists>t. trace (run_job (r, x) s) = trace s @ [Started t] \<and> may_start s t))"
proof (cases r)
  case (Then cb d)
  with assms obtain t where t: "cb = CallTask t" "may_start s t"
    by (auto simp: may_start_def)
  show ?thesis
  proof (cases x)
    case (Fulfil v)
    show ?thesis
      unfolding Then Fulfil t(1) run_job_start using t(2) by (simp add: started_state_simps)
  next
    case (Reject e)
    show ?thesis
      unfolding Then Reject by (simp add: settle_trace settle_calls)
  qed
next
  case (Catch cb d)
  with assms have cb: "(\<exists>name self. cb = Rethrow name self) \<or> cb = PreviousFailed"
    by auto
  show ?thesis
  proof (cases x)
    case (Fulfil v)
    show ?thesis
      unfolding Catch Fulfil by (simp add: settle_trace settle_calls)
  next
    case (Reject e)
    from cb show ?thesis
      unfolding Catch Reject
      by (auto simp: resolve_with_def settle_trace settle_calls cleanup_simps)
  qed
next
  case (Finally name self d)
  show ?thesis
    unfolding Finally by (simp add: settle_trace settle_calls cleanup_simps)
next
  case (Resolve d)
  show ?thesis
    unfolding Resolve by (simp add: settle_trace settle_calls)
qed

lemma run_callback_calls: "calls (snd (run_callback cb v s)) = calls s"
  by (cases cb) (simp_all add: start_task_def new_promise_def cleanup_simps split: prod.splits)

lemma resolve_with_calls: "calls (resolve_with d rc) = calls (snd rc)"
  by (cases rc; cases "fst rc")
     (simp_all add: resolve_with_def settle_calls subscribe_def split: promise.splits)

lemma run_job_calls: "calls (run_job (r, x) s) = calls s"
  by (cases r; cases x)
     (simp_all add: resolve_with_calls run_callback_calls settle_calls cleanup_simps)

lemma step_call_shape:
  assumes "inv s"
  shows "\<exists>b lst cb nxt P J. step (Call v name) s = called_state s name b lst cb nxt P J"
proof (cases "locks s name")
  case None
  from step_call_none [OF None] show ?thesis by blast
next
  case (Some p)
  note lt = lock_lt_fresh [OF assms Some]
  show ?thesis
  proof (cases "promises s p")
    case (Pending rs)
    from step_call_pending [OF Some Pending lt] show ?thesis by blast
  next
    case (Settled y)
    from step_call_settled [OF Some Settled lt] show ?thesis by blast
  qed
qed

lemma step_calls:
  assumes "inv s"
  shows "length (calls s) \<le> length (calls (step e s)) \<and>
   (\<forall>t < length (calls s). link (step e s) t = link s t)"
proof (cases e)
  case (Call v name)
  from step_call_shape [OF assms, of v name] obtain b lst cb nxt P J
    where "step (Call v name) s = called_state s name b lst cb nxt P J"
    by blast
  then show ?thesis unfolding Call by (simp add: length_called link_called_old)
next
  case (Complete t x)
  show ?thesis unfolding Complete by (simp add: settle_calls split: option.splits)
next
  case Tick
  show ?thesis
  proof (cases "jobs s")
    case Nil
    then show ?thesis unfolding Tick by simp
  next
    case (Cons j js)
    obtain r x where j: "j = (r, x)" by (cases j)
    have "calls (run_job (r, x) (s\<lparr>jobs := js\<rparr>)) = calls s"
      by (simp add: run_job_calls)
    then show ?thesis unfolding Tick using Cons j by simp
  qed
qed

lemma call_trace:
  assumes "inv s"
  shows "trace (step (Call v name) s) = trace s"
proof -
  from step_call_shape [OF assms, of v name] obtain b lst cb nxt P J
    where "step (Call v name) s = called_state s name b lst cb nxt P J"
    by blast
  then show ?thesis by (simp add: called_state_simps)
qed

lemma step_trace:
  assumes i: "inv s"
  shows "trace (step e s) = trace s \<or> (\<exists>t. trace (step e s) = trace s @ [Ended t]) \<or>
     (\<exists>t. trace (step e s) = trace s @ [Started t] \<and> may_start s t)"
proof (cases e)
  case (Call v name)
  show ?thesis unfolding Call by (simp add: call_trace [OF i])
next
  case (Complete t x)
  show ?thesis unfolding Complete by (simp add: settle_trace split: option.splits)
next
  case Tick
  show ?thesis
  proof (cases "jobs s")
    case Nil
    then show ?thesis unfolding Tick by simp
  next
    case (Cons j js)
    obtain r x where j: "j = (r, x)" by (cases j)
    from inv_pop(2) [OF i Cons] j have "job_ok (s\<lparr>jobs := js\<rparr>) r" by simp
    from run_job_trace [OF this, of x]
    have "trace (run_job (r, x) (s\<lparr>jobs := js\<rparr>)) = trace s \<or>
      (\<exists>t. trace (run_job (r, x) (s\<lparr>jobs := js\<rparr>)) = trace s @ [Started t] \<and>
         may_start (s\<lparr>jobs := js\<rparr>) t)"
      by simp
    moreover have "may_start (s\<lparr>jobs := js\<rparr>) t = may_start s t" for t
      by (simp add: may_start_def past_def)
    ultimately show ?thesis unfolding Tick using Cons j by auto
  qed
qed

lemma link_step: "inv s \<Longrightarrow> t < length (calls s) \<Longrightarrow> link (step e s) t = link s t"
  using step_calls [of s e] by simp

lemma snoc_eq_split:
  assumes "xs @ [x] = tr1 @ y # tr2"
  shows "(tr2 = [] \<and> x = y \<and> tr1 = xs) \<or> (\<exists>tr. tr2 = tr @ [x] \<and> xs = tr1 @ y # tr)"
  using assms by (cases tr2 rule: rev_cases) auto

lemma started_ended:
  assumes i: "inv s" and t: "t < length (calls s)" and p: "past s t" and st: "Started t \<in> set (trace s)"
  shows "Ended t \<in> set (trace s)"
  using invD(5) [OF i] t p st unfolding settled_ok_def past_def by blast

lemma serial_step:
  assumes i: "inv s" and se: "serial s"
  shows "serial (step e s)"
  unfolding serial_def
proof (intro allI impI)
  fix tr1 t2 tr2 t1
  assume a: "trace (step e s) = tr1 @ Started t2 # tr2 \<and> t1 < t2 \<and>
    key (link (step e s) t1) = key (link (step e s) t2)"
  note I = invD [OF i]
  note I' = invD [OF inv_step [OF i, of e]]
  from a have "Started t2 \<in> set (trace (step e s))" by simp
  with I'(2) have t2': "t2 < length (calls (step e s))" by (simp add: trace_ok_def)
  note old = se [unfolded serial_def, rule_format]
  have keep: "Started t1 \<notin> set r2 \<and> (Started t1 \<in> set tr1 \<longrightarrow> Ended t1 \<in> set tr1)"
    if d: "trace s = tr1 @ Started t2 # r2" for r2
  proof -
    from d have "Started t2 \<in> set (trace s)" by simp
    with I(2) have t2: "t2 < length (calls s)" by (simp add: trace_ok_def)
    with a have t1: "t1 < length (calls s)" by simp
    from a have "key (link s t1) = key (link s t2)"
      unfolding link_step [OF i t1] link_step [OF i t2] by simp
    with old [of tr1 t2 r2 t1] d a show ?thesis by simp
  qed
  from step_trace [OF i, of e]
  show "Started t1 \<notin> set tr2 \<and> (Started t1 \<in> set tr1 \<longrightarrow> Ended t1 \<in> set tr1)"
  proof (elim disjE exE conjE)
    assume "trace (step e s) = trace s"
    with a keep [of tr2] show ?thesis by simp
  next
    fix t assume "trace (step e s) = trace s @ [Ended t]"
    with a have "trace s @ [Ended t] = tr1 @ Started t2 # tr2" by simp
    from snoc_eq_split [OF this] obtain tr where tr: "tr2 = tr @ [Ended t]"
      "trace s = tr1 @ Started t2 # tr"
      by auto
    from keep [OF tr(2)] tr(1) show ?thesis by simp
  next
    fix t assume e: "trace (step e s) = trace s @ [Started t]" and m: "may_start s t"
    from m have t: "t < length (calls s)" and ns: "Started t \<notin> set (trace s)"
      and un: "\<not> is_settled (promises s (then_p (link s t)))"
      and pa: "\<forall>t1<t. key (link s t1) = key (link s t) \<longrightarrow> past s t1"
      by (simp_all add: may_start_def)
    from e a have "trace s @ [Started t] = tr1 @ Started t2 # tr2" by simp
    from snoc_eq_split [OF this] show ?thesis
    proof (elim disjE conjE exE)
      assume b: "tr2 = []" "Started t = Started t2" "tr1 = trace s"
      then have tt: "t2 = t" by simp
      with a t have t1: "t1 < length (calls s)" by simp
      from a have k: "key (link s t1) = key (link s t)"
        unfolding tt link_step [OF i t1] link_step [OF i t] by simp
      with pa a tt have "past s t1" by simp
      from started_ended [OF i t1 this] b show ?thesis by simp
    next
      fix tr assume b: "tr2 = tr @ [Started t]" "trace s = tr1 @ Started t2 # tr"
      then have "Started t2 \<in> set (trace s)" by simp
      with I(2) have t2: "t2 < length (calls s)" by (simp add: trace_ok_def)
      have "t1 \<noteq> t"
      proof
        assume e1: "t1 = t"
        from a have "key (link s t) = key (link s t2)"
          unfolding e1 link_step [OF i t] link_step [OF i t2] by simp
        with I(6) [unfolded order_ok_def, rule_format, of t t2] a e1 t2 \<open>Started t2 \<in> set (trace s)\<close>
        have "past s t" by simp
        with un have "Ended t \<in> set (trace s)" by (simp add: past_def)
        with I(2) ns show False by (simp add: trace_ok_def)
      qed
      with keep [OF b(2)] b(1) show ?thesis by simp
    qed
  qed
qed

lemma serial_init: "serial init"
  by (simp add: serial_def init_def)

lemma serial_run_from: "inv s \<Longrightarrow> serial s \<Longrightarrow> serial (run evs s)"
proof (induction evs arbitrary: s)
  case Nil
  then show ?case by (simp add: run_def)
next
  case (Cons e evs)
  from Cons.prems have "inv (step e s)" "serial (step e s)"
    by (simp_all add: inv_step serial_step)
  then have "serial (run evs (step e s))" by (rule Cons.IH)
  then show ?case by (simp add: run_def)
qed

lemma no_overlap:
  assumes i: "inv s" and r: "running s t1 = Some p1" "running s t2 = Some p2"
    and k: "key (link s t1) = key (link s t2)"
  shows "t1 = t2"
proof -
  note I = invD [OF i]
  note ru = I(3) [unfolded running_ok_def, rule_format]
  have x: False if "running s a = Some pa" "running s c = Some pc" "a < c"
    "key (link s a) = key (link s c)" for a c pa pc
  proof -
    from ru [OF that(1)] ru [OF that(2)] I(6) [unfolded order_ok_def, rule_format, of a c] that(3,4)
    have "past s a" by simp
    from started_ended [OF i _ this] ru [OF that(1)] show False by simp
  qed
  show ?thesis
  proof (cases t1 t2 rule: linorder_cases)
    case less
    from x [OF r less k] show ?thesis ..
  next
    case equal
    then show ?thesis .
  next
    case greater
    from x [OF r(2,1) greater k [symmetric]] show ?thesis ..
  qed
qed

text \<open>
  With a queue the tasks of one name run in turn. Take any order of calls of \<^verbatim>\<open>queue\<close>
  (of \<^verbatim>\<open>server.ts\<close> or of \<^verbatim>\<open>part_001\<close>), task completions and microtasks, and two tasks
  \<open>t1\<close> and \<open>t2\<close> passed to \<^verbatim>\<open>queue\<close> for the same name, \<open>t1\<close> first. Wherever task
  \<open>t2\<close> starts in the trace, task \<open>t1\<close> does not start afterwards, and if it has started
  before, it has also ended before; the two tasks are never running at the same time.
\<close>

lemma same_name_tasks_in_turn:
  assumes "t1 < t2" and "key (calls (run evs init) ! t1) = key (calls (run evs init) ! t2)"
  shows "(\<forall>tr1 tr2. trace (run evs init) = tr1 @ Started t2 # tr2 \<longrightarrow>
            Started t1 \<notin> set tr2 \<and> (Started t1 \<in> set tr1 \<longrightarrow> Ended t1 \<in> set tr1))
         \<and> \<not> (t1 \<in> dom (running (run evs init)) \<and> t2 \<in> dom (running (run evs init)))"
proof -
  let ?s = "run evs init"
  have i: "inv ?s" by (rule inv_run)
  have "serial ?s" by (rule serial_run_from [OF inv_init serial_init])
  note se = this [unfolded serial_def, rule_format]
  have "Started t1 \<notin> set tr2 \<and> (Started t1 \<in> set tr1 \<longrightarrow> Ended t1 \<in> set tr1)"
    if "trace ?s = tr1 @ Started t2 # tr2" for tr1 tr2
    using se [of tr1 t2 tr2 t1] that assms by simp
  moreover have "\<not> (t1 \<in> dom (running ?s) \<and> t2 \<in> dom (running ?s))"
  proof
    assume "t1 \<in> dom (running ?s) \<and> t2 \<in> dom (running ?s)"
    then obtain p1 p2 where "running ?s t1 = Some p1" "running ?s t2 = Some p2" by auto
    from no_overlap [OF i this assms(2)] assms(1) show False by simp
  qed
  ultimately show ?thesis by blast
qed

lemma same_name_tasks_in_turn_example:
  "(0::nat) < 1
   \<and> key (calls (run (rejecting_schedule Part1) init) ! 0)
       = key (calls (run (rejecting_schedule Part1) init) ! 1)
   \<and> trace (run (rejecting_schedule Part1) init) = [Started 0, Ended 0] @ Started 1 # []
   \<and> Started 0 \<notin> set ([] :: trace_event list)
   \<and> Ended 0 \<in> set [Started 0, Ended 0]
   \<and> \<not> (0 \<in> dom (running (run (rejecting_schedule Part1) init))
          \<and> 1 \<in> dom (running (run (rejecting_schedule Part1) init)))"
proof -
  let ?s = "run (rejecting_schedule Part1) init"
  have m: "map key (calls ?s) = [''p'', ''p'']"
    using part1_queue_runs_after_rejection by blast
  from arg_cong [OF m, of length] have l: "length (calls ?s) = 2"
    by simp
  have "key (calls ?s ! 0) = map key (calls ?s) ! 0" "key (calls ?s ! 1) = map key (calls ?s) ! 1"
    using l by simp_all
  then have k: "key (calls ?s ! 0) = key (calls ?s ! 1)"
    unfolding m by simp
  have tr: "trace ?s = [Started 0, Ended 0] @ Started 1 # []"
    using part1_queue_runs_after_rejection by simp
  from same_name_tasks_in_turn [of 0 1 "rejecting_schedule Part1", OF _ k] tr k
  show ?thesis by auto
qed

subsection \<open>\<^verbatim>\<open>part_000\<close>: operations of one name together\<close>

text \<open>
  Claim C2. Two operations for one name are claimed never to overlap, the second starting
  only after the first has completed. Two requests for the name \<^verbatim>\<open>p\<close> reach \<^verbatim>\<open>part_000\<close>
  one after the other: the second operation starts while the first is running, and both
  are running then. With the \<^verbatim>\<open>queue\<close> of \<^verbatim>\<open>server.ts\<close> or of \<^verbatim>\<open>part_001\<close>, and the
  microtasks run, the same two requests leave the first task running alone.
\<close>

theorem part0_requests_overlap:
  "names0 (run0 [Request (Some ''p''), Request (Some ''p'')] init0) = [''p'', ''p'']
   \<and> trace0 (run0 [Request (Some ''p''), Request (Some ''p'')] init0) = [Started 0, Started 1]
   \<and> running0 (run0 [Request (Some ''p''), Request (Some ''p'')] init0) = {0, 1}
   \<and> trace (run [Call ServerTs ''p'', Call ServerTs ''p'', Tick, Tick] init) = [Started 0]
   \<and> dom (running (run [Call ServerTs ''p'', Call ServerTs ''p'', Tick, Tick] init)) = {0}
   \<and> trace (run [Call Part1 ''p'', Call Part1 ''p'', Tick, Tick] init) = [Started 0]
   \<and> dom (running (run [Call Part1 ''p'', Call Part1 ''p'', Tick, Tick] init)) = {0}"
proof -
  have "names0 (run0 [Request (Some ''p''), Request (Some ''p'')] init0) = [''p'', ''p'']
   \<and> trace0 (run0 [Request (Some ''p''), Request (Some ''p'')] init0) = [Started 0, Started 1]
   \<and> running0 (run0 [Request (Some ''p''), Request (Some ''p'')] init0) = {0, 1}"
    by (simp add: run0_def init0_def fetch_part0_def validate_name_def trim_def is_space_def
        has_separator_def insert_commute)
  moreover have "trace (run [Call ServerTs ''p'', Call ServerTs ''p'', Tick, Tick] init) = [Started 0]
   \<and> dom (running (run [Call ServerTs ''p'', Call ServerTs ''p'', Tick, Tick] init)) = {0}"
    by (simp add: machine_simps)
  moreover have "trace (run [Call Part1 ''p'', Call Part1 ''p'', Tick, Tick] init) = [Started 0]
   \<and> dom (running (run [Call Part1 ''p'', Call Part1 ''p'', Tick, Tick] init)) = {0}"
    by (simp add: machine_simps)
  ultimately show ?thesis by (intro conjI) simp_all
qed

subsection \<open>Progress: the map empties\<close>

lemma settle_keeps_running: "running (settle q x s) = running s"
  by (simp add: settle_def split: promise.splits)

lemma settle_keeps_locks: "locks (settle q x s) = locks s"
  by (simp add: settle_def split: promise.splits)

lemma settle_self: "is_settled (promises (settle q x s) q)"
  by (cases "promises s q") (simp_all add: settle_def)

lemma settle_settled: "is_settled (promises s d) \<Longrightarrow> is_settled (promises (settle q x s) d)"
  by (cases "promises s q") (simp_all add: settle_def)

lemma settle_settled_iff:
  "d \<noteq> q \<Longrightarrow> is_settled (promises (settle q x s) d) = is_settled (promises s d)"
  by (cases "promises s q") (simp_all add: settle_def)

lemma settle_has_job: "has_job s d \<Longrightarrow> has_job (settle q x s) d"
  by (cases "promises s q") (auto simp: settle_def has_job_def)

lemma settle_awaits: "awaits s p d \<Longrightarrow> awaits (settle q x s) p d \<or> has_job (settle q x s) d"
proof (cases "promises s q")
  case (Settled y)
  assume "awaits s p d"
  with Settled show ?thesis by (simp add: settle_def)
next
  case (Pending rs)
  assume a: "awaits s p d"
  show ?thesis
  proof (cases "p = q")
    case True
    with a Pending obtain r where "r \<in> set rs" "target r = d"
      by (auto simp: awaits_def)
    then have "has_job (settle q x s) d"
      using Pending by (force simp: has_job_def settle_def)
    then show ?thesis ..
  next
    case False
    with a Pending have "awaits (settle q x s) p d"
      by (simp add: awaits_def settle_def)
    then show ?thesis ..
  qed
qed

lemma settle_awaits_self: "awaits s q d \<Longrightarrow> has_job (settle q x s) d"
proof -
  assume a: "awaits s q d"
  then obtain rs r where "promises s q = Pending rs" "r \<in> set rs" "target r = d"
    by (auto simp: awaits_def)
  then show ?thesis
    by (force simp: has_job_def settle_def)
qed

lemma settle_due: "due s p d \<Longrightarrow> due (settle q x s) p d"
  unfolding due_def using settle_settled settle_has_job settle_awaits by blast

lemma settle_due_self: "due (settle q x s) p q"
  by (simp add: due_def settle_self)

lemma link_live_settle:
  assumes "link_live E s t"
  shows "link_live (E - {q}) (settle q x s) t"
proof -
  have a: "d \<in> E - {q} \<or> due (settle q x s) p d" if "d \<in> E \<or> due s p d" for p d
    using that settle_due [of s p d q x] settle_due_self [of q x s p] by blast
  have b: "due (settle q x s) p d \<or> (\<exists>pt. running (settle q x s) t = Some pt \<and> awaits (settle q x s) pt d)"
    if "\<exists>pt. running s t = Some pt \<and> awaits s pt d" for p d
  proof -
    from that obtain pt where pt: "running s t = Some pt" "awaits s pt d" by blast
    from settle_awaits [OF pt(2), of q x] show ?thesis
    proof
      assume "awaits (settle q x s) pt d"
      with pt(1) show ?thesis by (auto simp: settle_keeps_running)
    next
      assume "has_job (settle q x s) d"
      then show ?thesis by (simp add: due_def)
    qed
  qed
  from assms a b show ?thesis
    unfolding link_live_def settle_calls by blast
qed

lemma live_settle: "live E s \<Longrightarrow> live (E - {q}) (settle q x s)"
  unfolding live_def settle_calls using link_live_settle by blast

lemma live_cleanup: "live E s \<Longrightarrow> live E (cleanup name self s)"
  unfolding live_def link_live_def due_def has_job_def awaits_def
  by (simp only: cleanup_simps)

lemma live_pop:
  assumes "live {} s" "jobs s = j # js"
  shows "live {target (fst j)} (s\<lparr>jobs := js\<rparr>)"
proof -
  let ?s = "s\<lparr>jobs := js\<rparr>"
  have a: "d \<in> {target (fst j)} \<or> due ?s p d" if "due s p d" for p d
    using that assms(2) by (auto simp: due_def has_job_def awaits_def)
  have b: "awaits ?s p d = awaits s p d" for p d
    by (simp add: awaits_def)
  show ?thesis
    unfolding live_def
  proof (intro allI impI)
    fix t assume "t < length (calls ?s)"
    with assms(1) have "link_live {} s t" by (simp add: live_def)
    then show "link_live {target (fst j)} ?s t"
      unfolding link_live_def using a b by auto
  qed
qed

lemma held_settle_other:
  assumes "held s" "\<forall>t < length (calls s). finally_p (link s t) \<noteq> q"
  shows "held (settle q x s)"
  using assms unfolding held_def settle_calls settle_keeps_locks
  by (simp add: settle_settled_iff)

lemma held_cleanup: "held s \<Longrightarrow> held (cleanup name self s)"
  unfolding held_def by (auto simp: cleanup_def)

lemma held_pop: "held s \<Longrightarrow> held (s\<lparr>jobs := js\<rparr>)"
  by (simp add: held_def)

lemma held_finally:
  assumes i: "inv s" and h: "held s" and t: "t < length (calls s)"
  shows "held (settle (finally_p (link s t)) x (cleanup (key (link s t)) (next_p (link s t)) s))"
  unfolding held_def
proof (intro allI impI)
  let ?c = "cleanup (key (link s t)) (next_p (link s t)) s"
  let ?s = "settle (finally_p (link s t)) x ?c"
  fix name t'
  assume a: "t' < length (calls ?s) \<and> locks ?s name = Some (next_p (link ?s t'))"
  note I = invD [OF i]
  from a have t': "t' < length (calls s)" by (simp add: settle_calls cleanup_simps)
  from a have lc: "locks ?c name = Some (next_p (link s t'))"
    by (simp add: settle_calls settle_keeps_locks cleanup_simps)
  then have ls: "locks s name = Some (next_p (link s t'))"
    by (auto simp: cleanup_def split: if_splits)
  from h t' ls have un: "\<not> is_settled (promises s (finally_p (link s t')))"
    unfolding held_def by blast
  have ne: "t' \<noteq> t"
  proof
    assume e: "t' = t"
    from I(9) ls obtain t0 where t0: "t0 < length (calls s)" "next_p (link s t') = next_p (link s t0)"
      "key (link s t0) = name"
      unfolding locks_ok_def by blast
    from next_p_link(2) [OF I(1) t' t0(1) t0(2)] t0(3) e have "name = key (link s t)" by simp
    with lc e show False by (auto simp: cleanup_def split: if_splits)
  qed
  with ids_inj(3) [OF I(1) t' t] have "finally_p (link s t') \<noteq> finally_p (link s t)"
    by blast
  with un show "\<not> is_settled (promises ?s (finally_p (link ?s t')))"
    by (simp add: settle_calls settle_settled_iff cleanup_simps)
qed

lemma live_started:
  assumes i: "inv s" and t: "t < length (calls s)" and d: "d = then_p (link s t)"
    and l: "live {d} s"
  shows "live {} (started_state t d s)"
  unfolding live_def
proof (intro allI impI)
  let ?s = "started_state t d s"
  note S = started_state_simps
  note I = invD [OF i]
  fix t' assume "t' < length (calls ?s)"
  then have t': "t' < length (calls s)" by (simp add: S)
  from l t' have ll: "link_live {d} s t'" by (simp add: live_def)
  note f = last_lt_fresh [OF I(1) t']
  have old: "promises ?s q = promises s q" if "q < fresh s" for q
    using that by (simp add: S)
  have du: "due ?s p d'" if "due s p d'" "p < fresh s" "d' < fresh s" for p d'
    using that by (simp add: due_def has_job_def awaits_def old S)
  have now: "running ?s t = Some (fresh s) \<and> awaits ?s (fresh s) d"
    by (simp add: S awaits_def)
  have c1: "due ?s (last_p (link s t')) (then_p (link s t')) \<or>
      (\<exists>pt. running ?s t' = Some pt \<and> awaits ?s pt (then_p (link s t')))"
  proof (cases "t' = t")
    case True
    with now d show ?thesis by blast
  next
    case False
    with ids_inj(1) [OF I(1) t' t] d have "then_p (link s t') \<notin> {d}" by blast
    with ll have "due s (last_p (link s t')) (then_p (link s t')) \<or>
        (\<exists>pt. running s t' = Some pt \<and> awaits s pt (then_p (link s t')))"
      by (simp add: link_live_def)
    then show ?thesis
    proof
      assume "due s (last_p (link s t')) (then_p (link s t'))"
      from du [OF this f(5) f(1)] show ?thesis ..
    next
      assume "\<exists>pt. running s t' = Some pt \<and> awaits s pt (then_p (link s t'))"
      then obtain pt where pt: "running s t' = Some pt" "awaits s pt (then_p (link s t'))"
        by blast
      from I(3) pt(1) have "pt < fresh s" by (simp add: running_ok_def)
      with pt False have "running ?s t' = Some pt \<and> awaits ?s pt (then_p (link s t'))"
        by (simp add: S awaits_def)
      then show ?thesis by blast
    qed
  qed
  from ids_inj(7) [OF I(1) t' t] d have "catch_p (link s t') \<notin> {d}" by simp
  with ll have "due s (then_p (link s t')) (catch_p (link s t'))" by (simp add: link_live_def)
  from du [OF this f(1) f(2)] have c2: "due ?s (then_p (link s t')) (catch_p (link s t'))" .
  from ids_inj(8) [OF I(1) t' t] d have "finally_p (link s t') \<notin> {d}" by simp
  with ll have "due s (catch_p (link s t')) (finally_p (link s t'))" by (simp add: link_live_def)
  from du [OF this f(2) f(3)] have c3: "due ?s (catch_p (link s t')) (finally_p (link s t'))" .
  from c1 c2 c3 show "link_live {} ?s t'"
    by (simp add: link_live_def S)
qed

lemma held_started:
  assumes i: "inv s" and h: "held s"
  shows "held (started_state t d s)"
  unfolding held_def
proof (intro allI impI)
  let ?s = "started_state t d s"
  note S = started_state_simps
  fix name t'
  assume a: "t' < length (calls ?s) \<and> locks ?s name = Some (next_p (link ?s t'))"
  then have t': "t' < length (calls s)" and "locks s name = Some (next_p (link s t'))"
    by (simp_all add: S)
  with h have "\<not> is_settled (promises s (finally_p (link s t')))"
    unfolding held_def by blast
  moreover from last_lt_fresh(3) [OF invD(1) [OF i] t']
  have "promises ?s (finally_p (link s t')) = promises s (finally_p (link s t'))"
    by (simp add: S)
  ultimately show "\<not> is_settled (promises ?s (finally_p (link ?s t')))"
    by (simp add: S)
qed

lemma live_complete:
  assumes i: "inv s" and l: "live {} s"
  shows "live {} (step (Complete t x) s)"
proof (cases "running s t")
  case None
  with l show ?thesis by simp
next
  case (Some pt)
  let ?s1 = "s\<lparr>running := (running s)(t := None), trace := trace s @ [Ended t]\<rparr>"
  have st: "step (Complete t x) s = settle pt x ?s1"
    using Some by simp
  have du: "due ?s1 p d = due s p d" for p d
    by (simp add: due_def has_job_def awaits_def)
  have aw: "awaits ?s1 p d = awaits s p d" for p d
    by (simp add: awaits_def)
  show ?thesis
    unfolding live_def st settle_calls
  proof (intro allI impI)
    fix t' assume "t' < length (calls ?s1)"
    then have t': "t' < length (calls s)" by simp
    from l t' have ll: "link_live {} s t'" by (simp add: live_def)
    show "link_live {} (settle pt x ?s1) t'"
    proof (cases "t' = t")
      case False
      with ll have "link_live {} ?s1 t'"
        by (simp add: link_live_def du aw)
      from link_live_settle [OF this, of pt x] show ?thesis by simp
    next
      case True
      from ll have "due ?s1 (last_p (link s t')) (then_p (link s t')) \<or>
          awaits ?s1 pt (then_p (link s t'))"
        using Some True by (auto simp: link_live_def du aw)
      then have "due (settle pt x ?s1) (last_p (link s t')) (then_p (link s t'))"
        using settle_due [of ?s1 _ _ pt x] settle_awaits_self [of ?s1 pt _ x]
        by (auto simp: due_def)
      moreover from ll have "due (settle pt x ?s1) (then_p (link s t')) (catch_p (link s t'))"
        "due (settle pt x ?s1) (catch_p (link s t')) (finally_p (link s t'))"
        using settle_due [of ?s1 _ _ pt x] by (simp_all add: link_live_def du)
      ultimately show ?thesis
        by (simp add: link_live_def settle_calls)
    qed
  qed
qed

lemma held_complete:
  assumes i: "inv s" and h: "held s"
  shows "held (step (Complete t x) s)"
proof (cases "running s t")
  case None
  with h show ?thesis by simp
next
  case (Some pt)
  let ?s1 = "s\<lparr>running := (running s)(t := None), trace := trace s @ [Ended t]\<rparr>"
  have st: "step (Complete t x) s = settle pt x ?s1"
    using Some by simp
  from h have h1: "held ?s1" by (simp add: held_def)
  from invD(4) [OF i] Some have "\<forall>t' < length (calls ?s1). finally_p (link ?s1 t') \<noteq> pt"
    unfolding running_apart_def by fastforce
  with h1 show ?thesis
    unfolding st by (intro held_settle_other) auto
qed

lemma live_run_job:
  assumes i: "inv s" and j: "job_ok s r" and l: "live {target r} s"
  shows "live {} (run_job (r, x) s)"
proof -
  have se: "live {} (settle (target r) z s')" if "live {target r} s'" for z s'
    using live_settle [OF that, of "target r" z] by simp
  show ?thesis
  proof (cases r)
    case (Then cb d)
    with j obtain t where t: "t < length (calls s)" "cb = CallTask t" "d = then_p (link s t)"
      by auto
    show ?thesis
    proof (cases x)
      case (Fulfil v)
      from l Then have "live {d} s" by simp
      from live_started [OF i t(1,3) this] show ?thesis
        unfolding Then Fulfil t(2) run_job_start .
    next
      case (Reject e)
      from se [OF l, of "Reject e"] show ?thesis
        unfolding Then Reject by simp
    qed
  next
    case (Catch cb d)
    with j have cb: "(\<exists>name self. cb = Rethrow name self) \<or> cb = PreviousFailed"
      by auto
    show ?thesis
    proof (cases x)
      case (Fulfil v)
      from se [OF l, of "Fulfil v"] show ?thesis
        unfolding Catch Fulfil by simp
    next
      case (Reject e)
      from cb show ?thesis
      proof (elim disjE exE)
        fix name self assume c: "cb = Rethrow name self"
        have "live {target r} (cleanup name self s)" by (rule live_cleanup [OF l])
        from se [OF this] show ?thesis
          unfolding Catch Reject c by (simp add: resolve_with_def)
      next
        assume c: "cb = PreviousFailed"
        from se [OF l] show ?thesis
          unfolding Catch Reject c by (simp add: resolve_with_def)
      qed
    qed
  next
    case (Finally name self d)
    have "live {target r} (cleanup name self s)" by (rule live_cleanup [OF l])
    from se [OF this] show ?thesis
      unfolding Finally by simp
  next
    case (Resolve d)
    from se [OF l, of x] show ?thesis
      unfolding Resolve by simp
  qed
qed

lemma held_run_job:
  assumes i: "inv s" and j: "job_ok s r" and h: "held s"
  shows "held (run_job (r, x) s)"
proof -
  note I = invD [OF i]
  have th: "held (settle (then_p (link s' t)) z s')"
    if "held s'" "ids_ok s'" "t < length (calls s')" for t z s'
    using that(1) by (rule held_settle_other) (use ids_inj(8) [OF that(2) _ that(3)] in blast)
  have ca: "held (settle (catch_p (link s' t)) z s')"
    if "held s'" "ids_ok s'" "t < length (calls s')" for t z s'
    using that(1) by (rule held_settle_other) (use ids_inj(9) [OF that(2) _ that(3)] in blast)
  show ?thesis
  proof (cases r)
    case (Then cb d)
    with j obtain t where t: "t < length (calls s)" "cb = CallTask t" "d = then_p (link s t)"
      by auto
    show ?thesis
    proof (cases x)
      case (Fulfil v)
      from held_started [OF i h] show ?thesis
        unfolding Then Fulfil t(2) run_job_start .
    next
      case (Reject e)
      from th [OF h I(1) t(1)] show ?thesis
        unfolding Then Reject t(3) by simp
    qed
  next
    case (Catch cb d)
    with j obtain t where t: "t < length (calls s)" "d = catch_p (link s t)"
      and cb: "(\<exists>name self. cb = Rethrow name self) \<or> cb = PreviousFailed"
      by auto
    show ?thesis
    proof (cases x)
      case (Fulfil v)
      from ca [OF h I(1) t(1)] show ?thesis
        unfolding Catch Fulfil t(2) by simp
    next
      case (Reject e)
      from cb show ?thesis
      proof (elim disjE exE)
        fix name self assume c: "cb = Rethrow name self"
        let ?c = "cleanup name self s"
        have "ids_ok ?c" using I(1) by (simp add: ids_ok_def cleanup_simps)
        moreover have "held ?c" by (rule held_cleanup [OF h])
        moreover have "t < length (calls ?c)" using t(1) by (simp add: cleanup_simps)
        ultimately have "held (settle (catch_p (link ?c t)) (Reject e) ?c)"
          by (intro ca)
        then show ?thesis
          unfolding Catch Reject c t(2) by (simp add: resolve_with_def cleanup_simps)
      next
        assume c: "cb = PreviousFailed"
        from ca [OF h I(1) t(1)] show ?thesis
          unfolding Catch Reject c t(2) by (simp add: resolve_with_def)
      qed
    qed
  next
    case (Finally name self d)
    with j obtain t where t: "t < length (calls s)" "d = finally_p (link s t)"
      "name = key (link s t)" "self = next_p (link s t)"
      by auto
    from held_finally [OF i h t(1)] show ?thesis
      unfolding Finally t(2,3,4) by simp
  next
    case (Resolve d)
    with j obtain t where t: "t < length (calls s)" "d = then_p (link s t)"
      by auto
    from th [OF h I(1) t(1)] show ?thesis
      unfolding Resolve t(2) by simp
  qed
qed

lemma live_tick:
  assumes i: "inv s" and l: "live {} s"
  shows "live {} (step Tick s)"
proof (cases "jobs s")
  case Nil
  with l show ?thesis by simp
next
  case (Cons j js)
  note p = inv_pop [OF i Cons]
  obtain r x where j: "j = (r, x)" by (cases j)
  from live_pop [OF l Cons] j have "live {target r} (s\<lparr>jobs := js\<rparr>)" by simp
  from live_run_job [OF p(1) _ this, of x] p(2) j show ?thesis
    using Cons by simp
qed

lemma held_tick:
  assumes i: "inv s" and h: "held s"
  shows "held (step Tick s)"
proof (cases "jobs s")
  case Nil
  with h show ?thesis by simp
next
  case (Cons j js)
  note p = inv_pop [OF i Cons]
  obtain r x where j: "j = (r, x)" by (cases j)
  have "held (s\<lparr>jobs := js\<rparr>)" by (rule held_pop [OF h])
  from held_run_job [OF p(1) _ this, of r x] p(2) j show ?thesis
    using Cons by simp
qed

lemma live_called:
  assumes i: "inv s" and li: "live {} s"
    and b: "fresh s \<le> b" and l: "lst < b"
    and P: "\<And>q. q \<noteq> lst \<Longrightarrow> P q = promises s q"
    and c: "(locks s name = None \<and> lst = fresh s \<and> P lst = Settled y \<and>
              J = [(Then (CallTask (length (calls s))) b, y)])
          \<or> (locks s name = Some lst \<and>
              (\<exists>rs. promises s lst = Pending rs \<and>
                 P lst = Pending (rs @ [Then (CallTask (length (calls s))) b])) \<and> J = [])
          \<or> (locks s name = Some lst \<and> promises s lst = Settled y \<and> P lst = Settled y \<and>
              J = [(Then (CallTask (length (calls s))) b, y)])"
  shows "live {} (called_state s name b lst cb nxt P J)"
  unfolding live_def
proof (intro allI impI)
  let ?s = "called_state s name b lst cb nxt P J"
  let ?n = "length (calls s)"
  note I = invD [OF i]
  note S = called_state_simps
  have old_promise: "promises ?s q = P q" if "q < fresh s" for q
    using that b by (simp add: S)
  have settled_old: "is_settled (promises ?s q)" if "q < fresh s" "is_settled (promises s q)" for q
  proof (cases "q = lst")
    case False
    with old_promise [OF that(1)] P that(2) show ?thesis by simp
  next
    case True
    from c show ?thesis
    proof (elim disjE conjE exE)
      assume "lst = fresh s"
      with True that show ?thesis by simp
    next
      fix rs assume "promises s lst = Pending rs"
      with True that show ?thesis by simp
    next
      assume "P lst = Settled y"
      with True old_promise [OF that(1)] show ?thesis by simp
    qed
  qed
  have awaits_old: "awaits ?s p d" if "p < fresh s" "awaits s p d" for p d
  proof (cases "p = lst")
    case False
    with old_promise [OF that(1)] P that(2) show ?thesis by (simp add: awaits_def)
  next
    case True
    from that(2) True obtain rs0 where r0: "promises s lst = Pending rs0" "\<exists>r \<in> set rs0. target r = d"
      by (auto simp: awaits_def)
    from c show ?thesis
    proof (elim disjE conjE exE)
      assume "lst = fresh s"
      with True that show ?thesis by simp
    next
      fix rs assume "promises s lst = Pending rs"
        "P lst = Pending (rs @ [Then (CallTask (length (calls s))) b])"
      with r0 True old_promise [OF that(1)] show ?thesis by (auto simp: awaits_def)
    next
      assume "promises s lst = Settled y"
      with r0 show ?thesis by simp
    qed
  qed
  have job_old: "has_job ?s d" if "has_job s d" for d
    using that by (auto simp: has_job_def S)
  have due_old: "due ?s p d" if "due s p d" "p < fresh s" "d < fresh s" for p d
    using that settled_old awaits_old job_old unfolding due_def by blast
  fix t assume "t < length (calls ?s)"
  then have "t < ?n \<or> t = ?n" by (auto simp: length_called)
  then show "link_live {} ?s t"
  proof
    assume t: "t < ?n"
    from li t have ll: "link_live {} s t" by (simp add: live_def)
    note f = last_lt_fresh [OF I(1) t]
    from ll have "due s (last_p (link s t)) (then_p (link s t)) \<or>
        (\<exists>pt. running s t = Some pt \<and> awaits s pt (then_p (link s t)))"
      by (simp add: link_live_def)
    then have c1: "due ?s (last_p (link s t)) (then_p (link s t)) \<or>
        (\<exists>pt. running ?s t = Some pt \<and> awaits ?s pt (then_p (link s t)))"
    proof
      assume "due s (last_p (link s t)) (then_p (link s t))"
      from due_old [OF this f(5) f(1)] show ?thesis ..
    next
      assume "\<exists>pt. running s t = Some pt \<and> awaits s pt (then_p (link s t))"
      then obtain pt where pt: "running s t = Some pt" "awaits s pt (then_p (link s t))"
        by blast
      from I(3) pt(1) have "pt < fresh s" by (simp add: running_ok_def)
      from awaits_old [OF this pt(2)] pt(1) show ?thesis by (simp add: S)
    qed
    from ll have "due s (then_p (link s t)) (catch_p (link s t))" by (simp add: link_live_def)
    from due_old [OF this f(1) f(2)] have c2: "due ?s (then_p (link s t)) (catch_p (link s t))" .
    from ll have "due s (catch_p (link s t)) (finally_p (link s t))" by (simp add: link_live_def)
    from due_old [OF this f(2) f(3)] have c3: "due ?s (catch_p (link s t)) (finally_p (link s t))" .
    from c1 c2 c3 show ?thesis
      by (simp add: link_live_def link_called_old [OF t])
  next
    assume t: "t = ?n"
    have "has_job ?s b \<or> awaits ?s lst b"
      using c
    proof (elim disjE conjE exE)
      assume "J = [(Then (CallTask (length (calls s))) b, y)]"
      then have "has_job ?s b" by (simp add: has_job_def S)
      then show ?thesis ..
    next
      fix rs assume "P lst = Pending (rs @ [Then (CallTask (length (calls s))) b])"
      with l have "awaits ?s lst b" by (simp add: awaits_def S)
      then show ?thesis ..
    next
      assume "J = [(Then (CallTask (length (calls s))) b, y)]"
      then have "has_job ?s b" by (simp add: has_job_def S)
      then show ?thesis ..
    qed
    then have "due ?s lst b" by (auto simp: due_def)
    moreover have "due ?s b (Suc b)" by (simp add: due_def awaits_def S)
    moreover have "due ?s (Suc b) (Suc (Suc b))" by (simp add: due_def awaits_def S)
    ultimately show ?thesis
      unfolding t link_live_def link_called_new by simp
  qed
qed

lemma held_called:
  assumes i: "inv s" and h: "held s"
    and b: "fresh s \<le> b" and l: "lst < b"
    and nx: "nxt = Suc b \<or> nxt = Suc (Suc b)"
    and P: "\<And>q. q \<noteq> lst \<Longrightarrow> P q = promises s q"
    and c: "lst = fresh s \<or> (\<exists>rs. P lst = Pending rs) \<or> P lst = promises s lst"
  shows "held (called_state s name b lst cb nxt P J)"
  unfolding held_def
proof (intro allI impI)
  let ?s = "called_state s name b lst cb nxt P J"
  let ?n = "length (calls s)"
  note I = invD [OF i]
  note S = called_state_simps
  fix nm t
  assume a: "t < length (calls ?s) \<and> locks ?s nm = Some (next_p (link ?s t))"
  then have "t < ?n \<or> t = ?n" by (auto simp: length_called)
  then show "\<not> is_settled (promises ?s (finally_p (link ?s t)))"
  proof
    assume t: "t = ?n"
    show ?thesis unfolding t link_called_new by (simp add: S)
  next
    assume t: "t < ?n"
    note f = last_lt_fresh [OF I(1) t]
    from f(4) b nx have "next_p (link s t) \<noteq> nxt" by auto
    moreover from a have "locks ?s nm = Some (next_p (link s t))"
      unfolding link_called_old [OF t] by simp
    ultimately have "locks s nm = Some (next_p (link s t))"
      by (auto simp: called_state_simps(5) split: if_splits)
    with h t have un: "\<not> is_settled (promises s (finally_p (link s t)))"
      unfolding held_def by blast
    have "\<not> is_settled (promises ?s (finally_p (link s t)))"
    proof (cases "finally_p (link s t) = lst")
      case False
      with un f(3) b P show ?thesis by (simp add: S)
    next
      case True
      from c show ?thesis
      proof (elim disjE exE)
        assume "lst = fresh s"
        with True f(3) show ?thesis by simp
      next
        fix rs assume "P lst = Pending rs"
        with True f(3) b show ?thesis by (simp add: S)
      next
        assume "P lst = promises s lst"
        with True un f(3) b show ?thesis by (simp add: S)
      qed
    qed
    then show ?thesis by (simp add: link_called_old [OF t])
  qed
qed

lemma live_call:
  assumes i: "inv s" and l: "live {} s"
  shows "live {} (step (Call v name) s)"
proof (cases "locks s name")
  case None
  show ?thesis
    unfolding step_call_none [OF None]
    by (rule live_called [OF i l, where y = "Fulfil Null"]) (simp_all add: None)
next
  case (Some p)
  note lt = lock_lt_fresh [OF i Some]
  show ?thesis
  proof (cases "promises s p")
    case (Pending rs)
    show ?thesis
      unfolding step_call_pending [OF Some Pending lt]
      by (rule live_called [OF i l]) (simp_all add: Some Pending lt)
  next
    case (Settled y)
    show ?thesis
      unfolding step_call_settled [OF Some Settled lt]
      by (rule live_called [OF i l, where y = y]) (simp_all add: Some Settled lt)
  qed
qed

lemma variant_next_cases: "variant_next v b = Suc b \<or> variant_next v b = Suc (Suc b)"
  by (cases v) (simp_all add: variant_next_def)

lemma held_call:
  assumes i: "inv s" and h: "held s"
  shows "held (step (Call v name) s)"
proof (cases "locks s name")
  case None
  show ?thesis
    unfolding step_call_none [OF None]
    by (rule held_called [OF i h _ _ variant_next_cases]) simp_all
next
  case (Some p)
  note lt = lock_lt_fresh [OF i Some]
  show ?thesis
  proof (cases "promises s p")
    case (Pending rs)
    show ?thesis
      unfolding step_call_pending [OF Some Pending lt]
      by (rule held_called [OF i h _ _ variant_next_cases]) (simp_all add: lt)
  next
    case (Settled y)
    show ?thesis
      unfolding step_call_settled [OF Some Settled lt]
      by (rule held_called [OF i h _ _ variant_next_cases]) (simp_all add: lt)
  qed
qed

lemma live_init: "live {} init"
  by (simp add: live_def init_def)

lemma held_init: "held init"
  by (simp add: held_def init_def)

lemma live_step: "inv s \<Longrightarrow> live {} s \<Longrightarrow> live {} (step e s)"
  by (cases e) (simp_all only: live_call live_complete live_tick)

lemma held_step: "inv s \<Longrightarrow> held s \<Longrightarrow> held (step e s)"
  by (cases e) (simp_all only: held_call held_complete held_tick)

lemma live_run_from: "inv s \<Longrightarrow> live {} s \<Longrightarrow> held s \<Longrightarrow> live {} (run evs s) \<and> held (run evs s)"
proof (induction evs arbitrary: s)
  case Nil
  then show ?case by (simp add: run_def)
next
  case (Cons e evs)
  from Cons.prems have "inv (step e s)" "live {} (step e s)" "held (step e s)"
    by (simp_all add: inv_step live_step held_step)
  then have "live {} (run evs (step e s)) \<and> held (run evs (step e s))" by (rule Cons.IH)
  then show ?case by (simp add: run_def)
qed

lemma live_run: "live {} (run evs init)" "held (run evs init)"
  using live_run_from [OF inv_init live_init held_init] by simp_all

lemma quiet_settled:
  assumes i: "inv s" and l: "live {} s" and nj: "jobs s = []" and nr: "dom (running s) = {}"
  shows "t < length (calls s) \<Longrightarrow>
    is_settled (promises s (then_p (link s t))) \<and> is_settled (promises s (catch_p (link s t))) \<and>
    is_settled (promises s (finally_p (link s t)))"
proof (induction t rule: less_induct)
  case (less t)
  note I = invD [OF i]
  note t = less.prems
  from l t have ll: "link_live {} s t" by (simp add: live_def)
  have no_job: "\<not> has_job s d" for d
    by (simp add: has_job_def nj)
  have no_run: "running s t' = None" for t'
    using nr by auto
  have th: "is_settled (promises s (then_p (link s t)))"
  proof (rule ccontr)
    assume un: "\<not> is_settled (promises s (then_p (link s t)))"
    with ll no_job no_run have "awaits s (last_p (link s t)) (then_p (link s t))"
      by (simp add: link_live_def due_def)
    then obtain rs r where r: "promises s (last_p (link s t)) = Pending rs" "r \<in> set rs"
      "target r = then_p (link s t)"
      by (auto simp: awaits_def)
    from I(8) r(1,2) have ro: "reaction_ok s (last_p (link s t)) r"
      by (simp add: reactions_ok_def)
    show False
    proof (cases r)
      case (Then cb d)
      with ro r(3) obtain t2 t' where t2: "t2 < length (calls s)" "then_p (link s t) = then_p (link s t2)"
        "t' < t2" "last_p (link s t) = next_p (link s t')"
        by auto
      from ids_inj(1) [OF I(1) t t2(1) t2(2)] t2(3) have lt: "t' < t" by simp
      with t have t': "t' < length (calls s)" by simp
      from less.IH [OF lt t'] next_p_cases [OF I(1) t'] t2(4)
      have "is_settled (promises s (last_p (link s t)))" by auto
      with r(1) show False by simp
    next
      case (Resolve d)
      with ro no_run show False by simp
    next
      case (Catch cb d)
      with ro r(3) obtain t2 where "t2 < length (calls s)" "then_p (link s t) = catch_p (link s t2)"
        by auto
      with ids_inj(4) [OF I(1) t this(1)] show False by simp
    next
      case (Finally name self d)
      with ro r(3) obtain t2 where "t2 < length (calls s)" "then_p (link s t) = finally_p (link s t2)"
        by auto
      with ids_inj(5) [OF I(1) t this(1)] show False by simp
    qed
  qed
  have ca: "is_settled (promises s (catch_p (link s t)))"
  proof (rule ccontr)
    assume "\<not> is_settled (promises s (catch_p (link s t)))"
    with ll no_job have "awaits s (then_p (link s t)) (catch_p (link s t))"
      by (simp add: link_live_def due_def)
    with th show False by (auto simp: awaits_def)
  qed
  have "is_settled (promises s (finally_p (link s t)))"
  proof (rule ccontr)
    assume "\<not> is_settled (promises s (finally_p (link s t)))"
    with ll no_job have "awaits s (catch_p (link s t)) (finally_p (link s t))"
      by (simp add: link_live_def due_def)
    with ca show False by (auto simp: awaits_def)
  qed
  with th ca show ?case by simp
qed

lemma quiet_unlocked:
  assumes i: "inv s" and l: "live {} s" and h: "held s"
    and nj: "jobs s = []" and nr: "dom (running s) = {}"
  shows "locks s name = None"
proof (rule ccontr)
  assume "locks s name \<noteq> None"
  then obtain p where p: "locks s name = Some p" by auto
  with invD(9) [OF i] obtain t where t: "t < length (calls s)" "p = next_p (link s t)"
    unfolding locks_ok_def by blast
  with h p have "\<not> is_settled (promises s (finally_p (link s t)))"
    unfolding held_def by blast
  with quiet_settled [OF i l nj nr t(1)] show False by simp
qed

lemma finally_job_link:
  assumes i: "inv s" and j: "jobs s = (Finally name self d, x) # js"
  shows "\<exists>t < length (calls s). d = finally_p (link s t) \<and> name = key (link s t) \<and>
           self = next_p (link s t)"
proof -
  from invD(7) [OF i] j have "job_ok s (Finally name self d)"
    by (simp add: jobs_ok_def)
  then show ?thesis by auto
qed

lemma finally_step_locks:
  assumes "jobs s = (Finally name self d, x) # js"
  shows "locks (step Tick s) = (if locks s name = Some self then (locks s)(name := None) else locks s)"
  using assms by (simp add: settle_keeps_locks cleanup_def)

lemma latest_link_lock:
  assumes i: "inv s" and t: "t < length (calls s)"
    and la: "\<forall>t'. t < t' \<and> t' < length (calls s) \<longrightarrow> key (link s t') \<noteq> key (link s t)"
  shows "locks s (key (link s t)) = None \<or> locks s (key (link s t)) = Some (next_p (link s t))"
proof (cases "locks s (key (link s t))")
  case None
  then show ?thesis ..
next
  case (Some p)
  with invD(9) [OF i] obtain t0 where t0: "t0 < length (calls s)" "p = next_p (link s t0)"
    "key (link s t0) = key (link s t)"
    "\<forall>t1. t0 < t1 \<and> t1 < length (calls s) \<longrightarrow> key (link s t1) \<noteq> key (link s t)"
    unfolding locks_ok_def by blast
  from la t0(1,3) have "\<not> t < t0" by blast
  moreover from t0(4) t have "\<not> t0 < t" by blast
  ultimately have "t0 = t" by simp
  with Some t0(2) show ?thesis by simp
qed

lemma older_link_lock:
  assumes i: "inv s" and t: "t < length (calls s)"
    and nw: "t < t'" "t' < length (calls s)" "key (link s t') = key (link s t)"
  shows "locks s (key (link s t)) \<noteq> Some (next_p (link s t))"
proof
  assume a: "locks s (key (link s t)) = Some (next_p (link s t))"
  with invD(9) [OF i] obtain t0 where t0: "t0 < length (calls s)"
    "next_p (link s t) = next_p (link s t0)"
    "\<forall>t1. t0 < t1 \<and> t1 < length (calls s) \<longrightarrow> key (link s t1) \<noteq> key (link s t)"
    unfolding locks_ok_def by blast
  from next_p_link(2) [OF invD(1) [OF i] t t0(1) t0(2)] have "t0 = t" by simp
  with t0(3) nw show False by blast
qed

text \<open>
  Claim C3. In every state the server can reach: when the microtask that runs next is the
  \<^verbatim>\<open>finally\<close> callback of a link, and no later call of \<^verbatim>\<open>queue\<close> was made for the name of
  that link, the name has no entry in the map afterwards; when there was a later call for
  the name, the map is left as it is. When no microtask is queued and no task is running,
  the map is empty, and the next call of \<^verbatim>\<open>queue\<close> starts from a new promise that is
  already fulfilled: the microtask that starts its task is queued at once.
\<close>

theorem finished_link_leaves_map:
  "(\<forall>name self d x js. jobs (run evs init) = (Finally name self d, x) # js \<longrightarrow>
      (\<exists>t < length (calls (run evs init)).
          d = finally_p (calls (run evs init) ! t) \<and> name = key (calls (run evs init) ! t) \<and>
          self = next_p (calls (run evs init) ! t) \<and>
          ((\<forall>t'. t < t' \<and> t' < length (calls (run evs init))
                \<longrightarrow> key (calls (run evs init) ! t') \<noteq> name)
             \<longrightarrow> locks (step Tick (run evs init)) name = None) \<and>
          ((\<exists>t'. t < t' \<and> t' < length (calls (run evs init))
                \<and> key (calls (run evs init) ! t') = name)
             \<longrightarrow> locks (step Tick (run evs init)) = locks (run evs init))))
   \<and> (jobs (run evs init) = [] \<and> dom (running (run evs init)) = {} \<longrightarrow>
        locks (run evs init) = Map.empty
        \<and> last_p (calls (step (Call v name') (run evs init)) ! length (calls (run evs init)))
            = fresh (run evs init)
        \<and> promises (step (Call v name') (run evs init)) (fresh (run evs init))
            = Settled (Fulfil Null)
        \<and> jobs (step (Call v name') (run evs init))
            = [(Then (CallTask (length (calls (run evs init)))) (Suc (fresh (run evs init))),
                Fulfil Null)])"
proof -
  let ?s = "run evs init"
  have i: "inv ?s" by (rule inv_run)
  have one: "\<exists>t < length (calls ?s).
          d = finally_p (link ?s t) \<and> name = key (link ?s t) \<and> self = next_p (link ?s t) \<and>
          ((\<forall>t'. t < t' \<and> t' < length (calls ?s) \<longrightarrow> key (link ?s t') \<noteq> name)
             \<longrightarrow> locks (step Tick ?s) name = None) \<and>
          ((\<exists>t'. t < t' \<and> t' < length (calls ?s) \<and> key (link ?s t') = name)
             \<longrightarrow> locks (step Tick ?s) = locks ?s)"
    if j: "jobs ?s = (Finally name self d, x) # js" for name self d x js
  proof -
    from finally_job_link [OF i j] obtain t where t: "t < length (calls ?s)"
      "d = finally_p (link ?s t)" "name = key (link ?s t)" "self = next_p (link ?s t)"
      by blast
    note st = finally_step_locks [OF j]
    have a: "locks (step Tick ?s) name = None"
      if "\<forall>t'. t < t' \<and> t' < length (calls ?s) \<longrightarrow> key (link ?s t') \<noteq> name"
      using latest_link_lock [OF i t(1)] that t(3,4) unfolding st by auto
    have b: "locks (step Tick ?s) = locks ?s"
      if "\<exists>t'. t < t' \<and> t' < length (calls ?s) \<and> key (link ?s t') = name"
    proof -
      from that obtain t' where "t < t'" "t' < length (calls ?s)" "key (link ?s t') = key (link ?s t)"
        using t(3) by auto
      from older_link_lock [OF i t(1) this] t(3,4) show ?thesis
        unfolding st by simp
    qed
    from t a b show ?thesis by blast
  qed
  have two: "locks ?s = Map.empty
        \<and> last_p (link (step (Call v name') ?s) (length (calls ?s))) = fresh ?s
        \<and> promises (step (Call v name') ?s) (fresh ?s) = Settled (Fulfil Null)
        \<and> jobs (step (Call v name') ?s)
            = [(Then (CallTask (length (calls ?s))) (Suc (fresh ?s)), Fulfil Null)]"
    if q: "jobs ?s = [] \<and> dom (running ?s) = {}"
  proof -
    from q have nj: "jobs ?s = []" and nr: "dom (running ?s) = {}" by simp_all
    have un: "locks ?s nm = None" for nm
      by (rule quiet_unlocked [OF i live_run nj nr])
    then have "locks ?s = Map.empty" by (intro ext)
    moreover note step_call_none [OF un, of v]
    ultimately show ?thesis
      by (simp add: link_called_new called_state_simps nj)
  qed
  from one two show ?thesis by blast
qed

lemma finishing_state:
  "jobs (run (finishing_schedule ServerTs) init)
     = [(Finally ''p'' 2 3, Fulfil (Answer (Response 200 (Updated ''p''))))]
   \<and> length (calls (run (finishing_schedule ServerTs) init)) = 1
   \<and> locks (run (finishing_schedule ServerTs) init) ''p'' = Some 2"
  by (simp add: finishing_schedule_def machine_simps)

lemma overtaken_state:
  "jobs (run (overtaken_schedule ServerTs) init)
     = [(Finally ''p'' 2 3, Fulfil (Answer (Response 200 (Updated ''p'')))),
        (Then (CallTask 1) 4, Fulfil (Answer (Response 200 (Updated ''p''))))]
   \<and> map key (calls (run (overtaken_schedule ServerTs) init)) = [''p'', ''p'']
   \<and> map finally_p (calls (run (overtaken_schedule ServerTs) init)) = [3, 6]
   \<and> locks (run (overtaken_schedule ServerTs) init) ''p'' = Some 5"
  by (simp add: overtaken_schedule_def machine_simps)

lemma quiet_state:
  "jobs (run (finishing_schedule ServerTs @ [Tick]) init) = []
   \<and> dom (running (run (finishing_schedule ServerTs @ [Tick]) init)) = {}"
  by (simp add: finishing_schedule_def machine_simps)

theorem finished_link_leaves_map_witness:
  "jobs (run (finishing_schedule ServerTs) init)
     = [(Finally ''p'' 2 3, Fulfil (Answer (Response 200 (Updated ''p''))))]
   \<and> locks (run (finishing_schedule ServerTs) init) ''p'' = Some 2
   \<and> locks (step Tick (run (finishing_schedule ServerTs) init)) ''p'' = None
   \<and> jobs (run (overtaken_schedule ServerTs) init)
     = [(Finally ''p'' 2 3, Fulfil (Answer (Response 200 (Updated ''p'')))),
        (Then (CallTask 1) 4, Fulfil (Answer (Response 200 (Updated ''p''))))]
   \<and> locks (step Tick (run (overtaken_schedule ServerTs) init)) ''p'' = Some 5
   \<and> jobs (run (finishing_schedule ServerTs @ [Tick]) init) = []
   \<and> dom (running (run (finishing_schedule ServerTs @ [Tick]) init)) = {}
   \<and> locks (run (finishing_schedule ServerTs @ [Tick]) init) = Map.empty"
proof -
  let ?f = "run (finishing_schedule ServerTs) init"
  let ?o = "run (overtaken_schedule ServerTs) init"
  let ?q = "run (finishing_schedule ServerTs @ [Tick]) init"
  let ?x = "Fulfil (Answer (Response 200 (Updated ''p'')))"
  note F = finishing_state [THEN conjunct1] finishing_state [THEN conjunct2, THEN conjunct1]
    finishing_state [THEN conjunct2, THEN conjunct2]
  note O = overtaken_state [THEN conjunct1] overtaken_state [THEN conjunct2, THEN conjunct1]
    overtaken_state [THEN conjunct2, THEN conjunct2, THEN conjunct1]
    overtaken_state [THEN conjunct2, THEN conjunct2, THEN conjunct2]
  note Q = quiet_state [THEN conjunct1] quiet_state [THEN conjunct2]
  from finished_link_leaves_map [of "finishing_schedule ServerTs", THEN conjunct1, rule_format, OF F(1)]
  obtain t where t: "t < length (calls ?f)"
    "(\<forall>t'. t < t' \<and> t' < length (calls ?f) \<longrightarrow> key (calls ?f ! t') \<noteq> ''p'')
       \<longrightarrow> locks (step Tick ?f) ''p'' = None"
    by blast
  from t(1) F(2) have "t = 0" by simp
  with t(2) F(2) have a: "locks (step Tick ?f) ''p'' = None" by simp
  from arg_cong [OF O(2), of length] have lo: "length (calls ?o) = 2" by simp
  have fo: "finally_p (calls ?o ! 1) = map finally_p (calls ?o) ! 1"
    "key (calls ?o ! 1) = map key (calls ?o) ! 1"
    using lo by simp_all
  from finished_link_leaves_map [of "overtaken_schedule ServerTs", THEN conjunct1, rule_format, OF O(1)]
  obtain u where u: "u < length (calls ?o)" "3 = finally_p (calls ?o ! u)"
    "(\<exists>t'. u < t' \<and> t' < length (calls ?o) \<and> key (calls ?o ! t') = ''p'')
       \<longrightarrow> locks (step Tick ?o) = locks ?o"
    by blast
  have "u \<noteq> 1"
    using u(2) fo(1) unfolding O(3) by auto
  with u(1) lo have u0: "u = 0" by simp
  have "key (calls ?o ! 1) = ''p''"
    unfolding fo(2) O(2) by simp
  with lo have "\<exists>t'. 0 < t' \<and> t' < length (calls ?o) \<and> key (calls ?o ! t') = ''p''"
    by (intro exI [of _ 1]) simp
  with u(3) u0 have "locks (step Tick ?o) = locks ?o" by simp
  with O(4) have b: "locks (step Tick ?o) ''p'' = Some 5" by simp
  from finished_link_leaves_map [of "finishing_schedule ServerTs @ [Tick]", THEN conjunct2,
      rule_format, OF conjI [OF Q]]
  have c: "locks ?q = Map.empty" by (rule conjunct1)
  from F(1,3) a O(1) b Q c show ?thesis by (intro conjI)
qed

subsection \<open>Tasks that answer: no rejection and no skipped task\<close>

lemma answers_fulfilled: "answers (Complete t x) \<Longrightarrow> fulfilled x"
  by (cases "Complete t x" rule: answers.cases) auto

lemma task_event_answers: "list_all answers (task_event t r)"
  by (simp add: task_event_def split: option.splits)

lemma settle_settled_cases:
  "is_settled (promises (settle q x s) p) = (p = q \<or> is_settled (promises s p))"
  by (cases "promises s q") (auto simp: settle_def)

lemma settle_value:
  "promises (settle q x s) p = Settled y \<Longrightarrow> promises s p = Settled y \<or> (p = q \<and> y = x)"
  by (cases "promises s q") (auto simp: settle_def split: if_splits)

lemma settle_jobs:
  "j \<in> set (jobs (settle q x s)) \<Longrightarrow>
   j \<in> set (jobs s) \<or> (\<exists>rs r. promises s q = Pending rs \<and> r \<in> set rs \<and> j = (r, x))"
  by (cases "promises s q") (auto simp: settle_def)

lemma unrejected_settle:
  assumes "unrejected s" "fulfilled x"
  shows "unrejected (settle q x s)"
  unfolding unrejected_def
proof (intro conjI allI impI ballI)
  fix p y assume "promises (settle q x s) p = Settled y"
  from settle_value [OF this] assms show "fulfilled y"
    by (auto simp: unrejected_def)
next
  fix j assume "j \<in> set (jobs (settle q x s))"
  from settle_jobs [OF this] assms show "fulfilled (snd j)"
    by (auto simp: unrejected_def)
qed

lemma unrejected_cleanup: "unrejected s \<Longrightarrow> unrejected (cleanup name self s)"
  by (simp add: unrejected_def cleanup_simps)

lemma unrejected_started: "unrejected s \<Longrightarrow> unrejected (started_state t d s)"
  by (simp add: unrejected_def started_state_simps)

lemma unrejected_run_job:
  assumes j: "job_ok s r" and u: "unrejected s" and x: "fulfilled x"
  shows "unrejected (run_job (r, x) s)"
proof -
  from x obtain v where v: "x = Fulfil v" by (cases x) auto
  show ?thesis
  proof (cases r)
    case (Then cb d)
    with j obtain t where "cb = CallTask t" by auto
    with unrejected_started [OF u] show ?thesis
      unfolding Then v by (simp only: run_job_start)
  next
    case (Catch cb d)
    from unrejected_settle [OF u x] show ?thesis
      unfolding Catch v by simp
  next
    case (Finally name self d)
    from unrejected_settle [OF unrejected_cleanup [OF u] x] show ?thesis
      unfolding Finally by simp
  next
    case (Resolve d)
    from unrejected_settle [OF u x] show ?thesis
      unfolding Resolve by simp
  qed
qed

lemma unrejected_tick:
  assumes i: "inv s" and u: "unrejected s"
  shows "unrejected (step Tick s)"
proof (cases "jobs s")
  case Nil
  with u show ?thesis by simp
next
  case (Cons j js)
  note p = inv_pop [OF i Cons]
  obtain r x where j: "j = (r, x)" by (cases j)
  from u Cons j have x: "fulfilled x" and u': "unrejected (s\<lparr>jobs := js\<rparr>)"
    by (auto simp: unrejected_def)
  from p(2) j have "job_ok (s\<lparr>jobs := js\<rparr>) r" by simp
  from unrejected_run_job [OF this u' x] show ?thesis
    using Cons j by simp
qed

lemma unrejected_complete:
  assumes u: "unrejected s" and x: "fulfilled x"
  shows "unrejected (step (Complete t x) s)"
proof (cases "running s t")
  case None
  with u show ?thesis by simp
next
  case (Some pt)
  from u have "unrejected (s\<lparr>running := (running s)(t := None), trace := trace s @ [Ended t]\<rparr>)"
    by (simp add: unrejected_def)
  from unrejected_settle [OF this x] show ?thesis
    using Some by simp
qed

lemma call_old_promise:
  assumes i: "inv s" and q: "q < fresh s"
  shows "(promises (step (Call v name) s) q = Settled x) = (promises s q = Settled x)"
proof (cases "locks s name")
  case None
  show ?thesis
    unfolding step_call_none [OF None] using q by (simp add: called_state_simps)
next
  case (Some p)
  note lt = lock_lt_fresh [OF i Some]
  show ?thesis
  proof (cases "promises s p")
    case (Pending rs)
    show ?thesis
      unfolding step_call_pending [OF Some Pending lt] using q Pending
      by (auto simp: called_state_simps)
  next
    case (Settled y)
    show ?thesis
      unfolding step_call_settled [OF Some Settled lt] using q by (simp add: called_state_simps)
  qed
qed

lemma call_promise_cases:
  assumes i: "inv s" and se: "promises (step (Call v name) s) q = Settled x"
  shows "promises s q = Settled x \<or> x = Fulfil Null"
proof (cases "locks s name")
  case None
  from se show ?thesis
    unfolding step_call_none [OF None]
    by (auto simp: called_state_simps split: if_splits)
next
  case (Some p)
  note lt = lock_lt_fresh [OF i Some]
  show ?thesis
  proof (cases "promises s p")
    case (Pending rs)
    from se show ?thesis
      unfolding step_call_pending [OF Some Pending lt]
      by (auto simp: called_state_simps split: if_splits)
  next
    case (Settled y)
    from se show ?thesis
      unfolding step_call_settled [OF Some Settled lt]
      by (auto simp: called_state_simps split: if_splits)
  qed
qed

lemma call_job_cases:
  assumes i: "inv s" and j: "j \<in> set (jobs (step (Call v name) s))"
  shows "j \<in> set (jobs s) \<or>
    (\<exists>d. fst j = Then (CallTask (length (calls s))) d \<and>
       (snd j = Fulfil Null \<or> (\<exists>p. promises s p = Settled (snd j))))"
proof (cases "locks s name")
  case None
  from j show ?thesis
    unfolding step_call_none [OF None]
    by (auto simp: called_state_simps)
next
  case (Some p)
  note lt = lock_lt_fresh [OF i Some]
  show ?thesis
  proof (cases "promises s p")
    case (Pending rs)
    from j show ?thesis
      unfolding step_call_pending [OF Some Pending lt]
      by (auto simp: called_state_simps)
  next
    case (Settled y)
    from j Settled show ?thesis
      unfolding step_call_settled [OF Some Settled lt]
      by (auto simp: called_state_simps)
  qed
qed

lemma unrejected_call:
  assumes i: "inv s" and u: "unrejected s"
  shows "unrejected (step (Call v name) s)"
  unfolding unrejected_def
proof (intro conjI allI impI ballI)
  fix p x assume "promises (step (Call v name) s) p = Settled x"
  from call_promise_cases [OF i this] u show "fulfilled x"
    by (auto simp: unrejected_def)
next
  fix j assume "j \<in> set (jobs (step (Call v name) s))"
  from call_job_cases [OF i this] u show "fulfilled (snd j)"
    by (auto simp: unrejected_def)
qed

lemma unrejected_step:
  assumes "inv s" "unrejected s" "answers e"
  shows "unrejected (step e s)"
proof (cases e)
  case (Call v name)
  with assms show ?thesis by (simp only: unrejected_call)
next
  case (Complete t x)
  with assms(3) have "fulfilled x" by (simp only: answers_fulfilled)
  with assms(2) show ?thesis unfolding Complete by (rule unrejected_complete)
next
  case Tick
  with assms show ?thesis by (simp only: unrejected_tick)
qed

lemma unrejected_init: "unrejected init"
  by (simp add: unrejected_def init_def)

text \<open>The promise of \<^verbatim>\<open>then\<close> is settled by the result of the task only.\<close>

lemma ran_settle:
  assumes "ran s" "\<forall>t < length (calls s). q = then_p (link s t) \<longrightarrow> Ended t \<in> set (trace s)"
  shows "ran (settle q x s)"
  unfolding ran_def
proof (intro allI impI)
  fix t assume a: "t < length (calls (settle q x s))"
    "is_settled (promises (settle q x s) (then_p (link (settle q x s) t)))"
  from a(1) have t: "t < length (calls s)" by (simp add: settle_calls)
  from a(2) have "then_p (link s t) = q \<or> is_settled (promises s (then_p (link s t)))"
    by (simp add: settle_calls settle_settled_cases)
  with assms t have "Ended t \<in> set (trace s)"
    unfolding ran_def by blast
  then show "Ended t \<in> set (trace (settle q x s))" by (simp add: settle_trace)
qed

lemma ran_cleanup: "ran s \<Longrightarrow> ran (cleanup name self s)"
  by (simp add: ran_def cleanup_simps)

lemma ran_started:
  assumes i: "inv s" and r: "ran s"
  shows "ran (started_state t d s)"
  unfolding ran_def
proof (intro allI impI)
  fix t' assume a: "t' < length (calls (started_state t d s))"
    "is_settled (promises (started_state t d s) (then_p (link (started_state t d s) t')))"
  then have t': "t' < length (calls s)" by (simp add: started_state_simps)
  from last_lt_fresh(1) [OF invD(1) [OF i] t'] a(2)
  have "is_settled (promises s (then_p (link s t')))"
    by (simp add: started_state_simps)
  with r t' show "Ended t' \<in> set (trace (started_state t d s))"
    by (simp add: ran_def started_state_simps)
qed

lemma ran_run_job:
  assumes i: "inv s" and j: "job_ok s r" and r: "ran s" and x: "fulfilled x"
  shows "ran (run_job (r, x) s)"
proof -
  note I = invD [OF i]
  from x obtain v where v: "x = Fulfil v" by (cases x) auto
  show ?thesis
  proof (cases r)
    case (Then cb d)
    with j obtain t where "cb = CallTask t" by auto
    with ran_started [OF i r] show ?thesis
      unfolding Then v by (simp only: run_job_start)
  next
    case (Catch cb d)
    with j obtain t where t: "t < length (calls s)" "d = catch_p (link s t)" by auto
    have "d \<noteq> then_p (link s t')" if "t' < length (calls s)" for t'
      using ids_inj(7) [OF I(1) t(1) that] t(2) by simp
    then have "\<forall>t' < length (calls s). d = then_p (link s t') \<longrightarrow> Ended t' \<in> set (trace s)"
      by blast
    with r have "ran (settle d (Fulfil v) s)"
      by (rule ran_settle)
    then show ?thesis
      unfolding Catch v by simp
  next
    case (Finally name self d)
    with j obtain t where t: "t < length (calls s)" "d = finally_p (link s t)" by auto
    let ?c = "cleanup name self s"
    have "d \<noteq> then_p (link s t')" if "t' < length (calls s)" for t'
      using ids_inj(8) [OF I(1) t(1) that] t(2) by simp
    then have "\<forall>t' < length (calls ?c). d = then_p (link ?c t') \<longrightarrow> Ended t' \<in> set (trace ?c)"
      by (simp add: cleanup_simps)
    with ran_cleanup [OF r] have "ran (settle d x ?c)"
      by (rule ran_settle)
    then show ?thesis
      unfolding Finally by simp
  next
    case (Resolve d)
    with j obtain t where t: "t < length (calls s)" "d = then_p (link s t)" "Ended t \<in> set (trace s)"
      by auto
    have "Ended t' \<in> set (trace s)" if "t' < length (calls s)" "d = then_p (link s t')" for t'
    proof -
      from that t(2) have "then_p (link s t) = then_p (link s t')" by simp
      from ids_inj(1) [OF I(1) t(1) that(1) this] t(3) show ?thesis by simp
    qed
    then have "\<forall>t' < length (calls s). d = then_p (link s t') \<longrightarrow> Ended t' \<in> set (trace s)"
      by blast
    with r have "ran (settle d x s)"
      by (rule ran_settle)
    then show ?thesis
      unfolding Resolve by simp
  qed
qed

lemma ran_tick:
  assumes i: "inv s" and u: "unrejected s" and r: "ran s"
  shows "ran (step Tick s)"
proof (cases "jobs s")
  case Nil
  with r show ?thesis by simp
next
  case (Cons j js)
  note p = inv_pop [OF i Cons]
  obtain r' x where j: "j = (r', x)" by (cases j)
  from u Cons j have x: "fulfilled x"
    by (auto simp: unrejected_def)
  from r have r0: "ran (s\<lparr>jobs := js\<rparr>)" by (simp add: ran_def)
  from p(2) j have "job_ok (s\<lparr>jobs := js\<rparr>) r'" by simp
  from ran_run_job [OF p(1) this r0 x] show ?thesis
    using Cons j by simp
qed

lemma ran_complete:
  assumes i: "inv s" and r: "ran s"
  shows "ran (step (Complete t x) s)"
proof (cases "running s t")
  case None
  with r show ?thesis by simp
next
  case (Some pt)
  let ?s1 = "s\<lparr>running := (running s)(t := None), trace := trace s @ [Ended t]\<rparr>"
  from r have "ran ?s1" by (simp add: ran_def)
  moreover have "\<forall>t' < length (calls ?s1). pt = then_p (link ?s1 t') \<longrightarrow> Ended t' \<in> set (trace ?s1)"
    using running_not_link(1) [OF i Some] by simp
  ultimately have "ran (settle pt x ?s1)"
    by (rule ran_settle)
  then show ?thesis using Some by simp
qed

lemma ran_call:
  assumes i: "inv s" and r: "ran s"
  shows "ran (step (Call v name) s)"
  unfolding ran_def
proof (intro allI impI)
  let ?s = "step (Call v name) s"
  note I = invD [OF i]
  note I' = invD [OF inv_step [OF i, of "Call v name"]]
  fix t assume a: "t < length (calls ?s)" "is_settled (promises ?s (then_p (link ?s t)))"
  then obtain x where x: "promises ?s (then_p (link ?s t)) = Settled x"
    by (cases "promises ?s (then_p (link ?s t))") auto
  from step_call_shape [OF i, of v name] obtain b lst cb nxt P J
    where sh: "?s = called_state s name b lst cb nxt P J"
    by blast
  have len: "length (calls ?s) = Suc (length (calls s))"
    unfolding sh by (rule length_called)
  show "Ended t \<in> set (trace ?s)"
  proof (cases "t < length (calls s)")
    case True
    have lk: "link ?s t = link s t" by (rule link_step [OF i True])
    from x have "promises s (then_p (link s t)) = Settled x"
      unfolding lk call_old_promise [OF i last_lt_fresh(1) [OF I(1) True]] .
    with r True have "Ended t \<in> set (trace s)" by (simp add: ran_def)
    then show ?thesis by (simp add: call_trace [OF i])
  next
    case False
    with a(1) len have t: "t = length (calls s)" by simp
    from a(2) show ?thesis
      unfolding t sh link_called_new by (simp add: called_state_simps)
  qed
qed

lemma ran_step:
  assumes "inv s" "unrejected s" "ran s"
  shows "ran (step e s)"
proof (cases e)
  case (Call v name)
  with assms show ?thesis by (simp only: ran_call)
next
  case (Complete t x)
  with assms show ?thesis by (simp only: ran_complete)
next
  case Tick
  with assms show ?thesis by (simp only: ran_tick)
qed

lemma ran_init: "ran init"
  by (simp add: ran_def init_def)



lemma in_turn_step:
  assumes i: "inv s" and r: "ran s" and se: "in_turn s"
  shows "in_turn (step e s)"
  unfolding in_turn_def
proof (intro allI impI)
  fix tr1 t2 tr2 t1
  assume a: "trace (step e s) = tr1 @ Started t2 # tr2 \<and> t1 < t2 \<and>
    key (link (step e s) t1) = key (link (step e s) t2)"
  note I = invD [OF i]
  note old = se [unfolded in_turn_def, rule_format]
  have keep: "Ended t1 \<in> set tr1" if d: "trace s = tr1 @ Started t2 # r2" for r2
  proof -
    from d have "Started t2 \<in> set (trace s)" by simp
    with I(2) have t2: "t2 < length (calls s)" by (simp add: trace_ok_def)
    with a have t1: "t1 < length (calls s)" by simp
    from a have "key (link s t1) = key (link s t2)"
      unfolding link_step [OF i t1] link_step [OF i t2] by simp
    with old [of tr1 t2 r2 t1] d a show ?thesis by simp
  qed
  from step_trace [OF i, of e]
  show "Ended t1 \<in> set tr1"
  proof (elim disjE exE conjE)
    assume "trace (step e s) = trace s"
    with a keep [of tr2] show ?thesis by simp
  next
    fix t assume "trace (step e s) = trace s @ [Ended t]"
    with a have "trace s @ [Ended t] = tr1 @ Started t2 # tr2" by simp
    from snoc_eq_split [OF this] obtain tr where "trace s = tr1 @ Started t2 # tr"
      by auto
    from keep [OF this] show ?thesis .
  next
    fix t assume e: "trace (step e s) = trace s @ [Started t]" and m: "may_start s t"
    from m have t: "t < length (calls s)"
      and pa: "\<forall>t1<t. key (link s t1) = key (link s t) \<longrightarrow> past s t1"
      by (simp_all add: may_start_def)
    from e a have "trace s @ [Started t] = tr1 @ Started t2 # tr2" by simp
    from snoc_eq_split [OF this] show ?thesis
    proof (elim disjE conjE exE)
      assume b: "tr2 = []" "Started t = Started t2" "tr1 = trace s"
      then have tt: "t2 = t" by simp
      with a t have t1: "t1 < length (calls s)" by simp
      from a have k: "key (link s t1) = key (link s t)"
        unfolding tt link_step [OF i t1] link_step [OF i t] by simp
      with pa a tt have "past s t1" by simp
      with r t1 have "Ended t1 \<in> set (trace s)"
        unfolding past_def ran_def by blast
      with b show ?thesis by simp
    next
      fix tr assume "trace s = tr1 @ Started t2 # tr"
      from keep [OF this] show ?thesis .
    qed
  qed
qed

lemma in_turn_init: "in_turn init"
  by (simp add: in_turn_def init_def)

lemma in_turn_run_from:
  "inv s \<Longrightarrow> unrejected s \<Longrightarrow> ran s \<Longrightarrow> in_turn s \<Longrightarrow> list_all answers evs \<Longrightarrow>
   in_turn (run evs s)"
proof (induction evs arbitrary: s)
  case Nil
  then show ?case by (simp add: run_def)
next
  case (Cons e evs)
  from Cons.prems have "inv (step e s)" "unrejected (step e s)" "ran (step e s)"
    "in_turn (step e s)" "list_all answers evs"
    by (simp_all add: inv_step unrejected_step ran_step in_turn_step)
  then have "in_turn (run evs (step e s))" by (rule Cons.IH)
  then show ?case by (simp add: run_def)
qed

text \<open>
  The queues of \<^verbatim>\<open>server.ts\<close> and of \<^verbatim>\<open>part_001\<close> run the tasks of one name one after the
  other. Take any order of calls of \<^verbatim>\<open>queue\<close>, completions of tasks of the routes and
  microtasks, and two tasks \<open>t1\<close> and \<open>t2\<close> passed to \<^verbatim>\<open>queue\<close> for the same name, \<open>t1\<close>
  first: wherever task \<open>t2\<close> starts in the trace, task \<open>t1\<close> has ended before.
\<close>

lemma queued_tasks_one_after_the_other:
  assumes "list_all answers evs" and "t1 < t2"
    and "key (calls (run evs init) ! t1) = key (calls (run evs init) ! t2)"
    and "trace (run evs init) = tr1 @ Started t2 # tr2"
  shows "Ended t1 \<in> set tr1"
proof -
  have "in_turn (run evs init)"
    by (rule in_turn_run_from [OF inv_init unrejected_init ran_init in_turn_init assms(1)])
  from this [unfolded in_turn_def, rule_format, of tr1 t2 tr2 t1] assms(2-4)
  show ?thesis by simp
qed

subsection \<open>Each caller gets the result of its own task\<close>






























end
